theory Spec2Isabelle
  imports Complex_Main "HOL-Library.Word"
begin

unbundle bit_operations_syntax

section \<open>Framebuffer renderer (SSD1306, 128x64, one bit per pixel)\<close>

text \<open>
  The framebuffer \<open>oled_buffer\<close> is a byte array of \<open>OLED_BUFFER_SIZE\<close> entries, packed in
  pages of eight pixel rows. It is modelled as a list of 8-bit words; the drawing
  primitives take the buffer and return the updated buffer. Coordinates are C \<open>int\<close>s;
  they are modelled as mathematical integers, which agrees with the source wherever the
  source's \<open>x + i\<close> and \<open>y + j\<close> do not overflow (signed overflow has no defined behaviour
  in C++).
\<close>

definition OLED_WIDTH :: int where
  "OLED_WIDTH = 128"

definition OLED_HEIGHT :: int where
  "OLED_HEIGHT = 64"

definition OLED_BUFFER_SIZE :: nat where
  "OLED_BUFFER_SIZE = nat (OLED_WIDTH * OLED_HEIGHT div 8)"

type_synonym framebuffer = "8 word list"

definition oled_clear_buffer :: "framebuffer" where
  "oled_clear_buffer = replicate OLED_BUFFER_SIZE 0x00"

definition oled_fill_buffer :: "framebuffer" where
  "oled_fill_buffer = replicate OLED_BUFFER_SIZE 0xFF"

text \<open>
  \<open>oled_set_pixel\<close>: the bounds test comes first, so \<open>y / 8\<close> and \<open>y % 8\<close> are only
  evaluated on non-negative operands, where C's truncating division agrees with
  \<open>div\<close> and \<open>mod\<close>. The read-modify-write of the byte goes through \<open>int\<close> in C and is
  truncated back to eight bits; for shift counts 0..7 that is the 8-bit operation.
\<close>

definition oled_set_pixel :: "int \<Rightarrow> int \<Rightarrow> bool \<Rightarrow> framebuffer \<Rightarrow> framebuffer" where
  "oled_set_pixel x y on buf =
     (if x < 0 \<or> x \<ge> OLED_WIDTH \<or> y < 0 \<or> y \<ge> OLED_HEIGHT then buf
      else
        let byte_index = nat (x + (y div 8) * OLED_WIDTH);
            bit_index = nat (y mod 8)
        in if on
           then buf[byte_index := (buf ! byte_index) OR (push_bit bit_index 1)]
           else buf[byte_index := (buf ! byte_index) AND NOT (push_bit bit_index 1)])"

text \<open>
  Reading a pixel back, with the addressing of \<open>oled_set_pixel\<close>: byte
  \<open>x + (y / 8) * width\<close>, bit \<open>y % 8\<close>. The source has no such function (the display
  controller does the reading); it is the observation the theorems are stated with.
\<close>

definition in_bounds :: "int \<Rightarrow> int \<Rightarrow> bool" where
  "in_bounds x y = (0 \<le> x \<and> x < OLED_WIDTH \<and> 0 \<le> y \<and> y < OLED_HEIGHT)"

definition pixel_byte :: "int \<Rightarrow> int \<Rightarrow> nat" where
  "pixel_byte x y = nat (x + (y div 8) * OLED_WIDTH)"

definition pixel_at :: "framebuffer \<Rightarrow> int \<Rightarrow> int \<Rightarrow> bool" where
  "pixel_at buf x y = bit (buf ! pixel_byte x y) (nat (y mod 8))"

text \<open>The glyph table \<open>font5x7\<close>: 39 glyphs of five column bytes each, in the source's order
  (A to Z, space, exclamation mark, 0 to 9, colon).\<close>

definition font5x7 :: "8 word list list" where
  "font5x7 = [
      [0x7E, 0x11, 0x11, 0x11, 0x7E],
      [0x7F, 0x49, 0x49, 0x49, 0x36],
      [0x3E, 0x41, 0x41, 0x41, 0x22],
      [0x7F, 0x41, 0x41, 0x22, 0x1C],
      [0x7F, 0x49, 0x49, 0x49, 0x41],
      [0x7F, 0x09, 0x09, 0x09, 0x01],
      [0x3E, 0x41, 0x49, 0x49, 0x7A],
      [0x7F, 0x08, 0x08, 0x08, 0x7F],
      [0x00, 0x41, 0x7F, 0x41, 0x00],
      [0x20, 0x40, 0x41, 0x3F, 0x01],
      [0x7F, 0x08, 0x14, 0x22, 0x41],
      [0x7F, 0x40, 0x40, 0x40, 0x40],
      [0x7F, 0x02, 0x0C, 0x02, 0x7F],
      [0x7F, 0x04, 0x08, 0x10, 0x7F],
      [0x3E, 0x41, 0x41, 0x41, 0x3E],
      [0x7F, 0x09, 0x09, 0x09, 0x06],
      [0x3E, 0x41, 0x51, 0x21, 0x5E],
      [0x7F, 0x09, 0x19, 0x29, 0x46],
      [0x46, 0x49, 0x49, 0x49, 0x31],
      [0x01, 0x01, 0x7F, 0x01, 0x01],
      [0x3F, 0x40, 0x40, 0x40, 0x3F],
      [0x1F, 0x20, 0x40, 0x20, 0x1F],
      [0x3F, 0x40, 0x38, 0x40, 0x3F],
      [0x63, 0x14, 0x08, 0x14, 0x63],
      [0x07, 0x08, 0x70, 0x08, 0x07],
      [0x61, 0x51, 0x49, 0x45, 0x43],
      [0x00, 0x00, 0x00, 0x00, 0x00],
      [0x00, 0x00, 0x5F, 0x00, 0x00],
      [0x3E, 0x51, 0x49, 0x45, 0x3E],
      [0x00, 0x42, 0x7F, 0x40, 0x00],
      [0x42, 0x61, 0x51, 0x49, 0x46],
      [0x21, 0x41, 0x45, 0x4B, 0x31],
      [0x18, 0x14, 0x12, 0x7F, 0x10],
      [0x27, 0x45, 0x45, 0x45, 0x39],
      [0x3C, 0x4A, 0x49, 0x49, 0x30],
      [0x01, 0x71, 0x09, 0x05, 0x03],
      [0x36, 0x49, 0x49, 0x49, 0x36],
      [0x06, 0x49, 0x49, 0x29, 0x1E],
      [0x00, 0x36, 0x36, 0x00, 0x00]
     ]"

text \<open>
  \<open>oled_draw_char\<close>. The \<open>char\<close> is compared as its character code; whether \<open>char\<close> is
  signed or unsigned on the target makes no difference, since codes of 128 and more fall
  outside every range either way. \<open>glyph_index\<close> is the \<open>if\<close>/\<open>else if\<close> chain that
  computes \<open>index\<close>, with -1 for "no glyph".
\<close>

definition glyph_index :: "char \<Rightarrow> int" where
  "glyph_index c =
     (let k = (of_char c :: int) in
      if k \<ge> of_char CHR ''A'' \<and> k \<le> of_char CHR ''Z'' then k - of_char CHR ''A''
      else if k \<ge> of_char CHR ''a'' \<and> k \<le> of_char CHR ''z'' then k - of_char CHR ''a''
      else if c = CHR '' '' then 26
      else if c = CHR ''!'' then 27
      else if k \<ge> of_char CHR ''0'' \<and> k \<le> of_char CHR ''9'' then 28 + (k - of_char CHR ''0'')
      else if c = CHR '':'' then 38
      else -1)"

text \<open>The inner loop over the seven rows \<open>j\<close> of one glyph column, and the outer loop over
  the five columns \<open>i\<close>. \<open>col & (1 << j)\<close> is tested for being non-zero.\<close>

definition draw_column :: "int \<Rightarrow> int \<Rightarrow> 8 word \<Rightarrow> bool \<Rightarrow> framebuffer \<Rightarrow> framebuffer" where
  "draw_column cx y col on buf =
     fold (\<lambda>j b. if col AND push_bit j 1 \<noteq> 0 then oled_set_pixel cx (y + int j) on b else b)
       [0..<7] buf"

definition oled_draw_char :: "int \<Rightarrow> int \<Rightarrow> char \<Rightarrow> bool \<Rightarrow> framebuffer \<Rightarrow> framebuffer" where
  "oled_draw_char x y c on buf =
     (let index = glyph_index c in
      if index < 0 then buf
      else fold (\<lambda>i b. draw_column (x + int i) y (font5x7 ! nat index ! i) on b) [0..<5] buf)"

text \<open>\<open>oled_draw_string\<close> walks the characters up to the terminating NUL; a string is
  modelled as the list of the characters before it.\<close>

fun oled_draw_string :: "int \<Rightarrow> int \<Rightarrow> string \<Rightarrow> bool \<Rightarrow> framebuffer \<Rightarrow> framebuffer" where
  "oled_draw_string x y [] on buf = buf"
| "oled_draw_string x y (c # str) on buf =
     oled_draw_string (x + 6) y str on (oled_draw_char x y c on buf)"

section \<open>The I2C transport and \<open>oled_update\<close>\<close>

text \<open>
  \<open>i2c_master_transmit\<close> belongs to the platform driver. It is taken as a parameter: a
  function from the messages put on the bus so far and the message to send to the status
  the driver returns (\<open>ESP_OK\<close> is 0). The bus itself is the list of the messages handed
  to the driver, in order.
\<close>

type_synonym esp_err_t = int

definition ESP_OK :: esp_err_t where
  "ESP_OK = 0"

definition ESP_FAIL :: esp_err_t where
  "ESP_FAIL = -1"

type_synonym i2c_bus = "8 word list list"

type_synonym i2c_driver = "i2c_bus \<Rightarrow> 8 word list \<Rightarrow> esp_err_t"

definition i2c_master_transmit :: "i2c_driver \<Rightarrow> 8 word list \<Rightarrow> i2c_bus \<Rightarrow> esp_err_t \<times> i2c_bus" where
  "i2c_master_transmit drv msg bus = (drv bus msg, bus @ [msg])"

definition oled_write_command :: "i2c_driver \<Rightarrow> 8 word \<Rightarrow> i2c_bus \<Rightarrow> esp_err_t \<times> i2c_bus" where
  "oled_write_command drv cmd bus = i2c_master_transmit drv [0x00, cmd] bus"

text \<open>One page of \<open>oled_update\<close>: three commands, then the control byte 0x40 followed by the
  128 bytes of the page. Every returned status is dropped, as in the source.\<close>

definition oled_update_page :: "i2c_driver \<Rightarrow> framebuffer \<Rightarrow> nat \<Rightarrow> i2c_bus \<Rightarrow> i2c_bus" where
  "oled_update_page drv buf page bus =
     (let (_, bus1) = oled_write_command drv (0xB0 + of_nat page) bus;
          (_, bus2) = oled_write_command drv 0x00 bus1;
          (_, bus3) = oled_write_command drv 0x10 bus2;
          msg = 0x40 # map (\<lambda>i. buf ! (nat OLED_WIDTH * page + i)) [0..<nat OLED_WIDTH];
          (_, bus4) = i2c_master_transmit drv msg bus3
      in bus4)"

text \<open>\<open>oled_update\<close> returns \<open>void\<close>: the model returns the C return value (nothing) and
  the bus.\<close>

definition oled_update :: "i2c_driver \<Rightarrow> framebuffer \<Rightarrow> i2c_bus \<Rightarrow> unit \<times> i2c_bus" where
  "oled_update drv buf bus = ((), fold (oled_update_page drv buf) [0..<8] bus)"

section \<open>Floating-point values\<close>

text \<open>
  A C \<open>float\<close> is a NaN, an infinity or a finite value; a finite value is a real number.
  Comparison is exact. Arithmetic rounds: the rounding to single precision is a
  parameter \<open>rnd\<close> of the operations that need it.
\<close>

datatype c_float = FNaN | FNegInf | FFin real | FPosInf

fun float_gt :: "c_float \<Rightarrow> c_float \<Rightarrow> bool" where
  "float_gt FNaN _ = False"
| "float_gt _ FNaN = False"
| "float_gt (FFin a) (FFin b) = (a > b)"
| "float_gt FPosInf FPosInf = False"
| "float_gt FPosInf _ = True"
| "float_gt _ FPosInf = False"
| "float_gt FNegInf _ = False"
| "float_gt _ FNegInf = True"

text \<open>Conversion of an \<open>int64_t\<close> to \<open>float\<close>: exact up to 24 bits of magnitude, rounded
  beyond. Conversion of an \<open>int16_t\<close> is always exact.\<close>

definition int64_to_float :: "(real \<Rightarrow> real) \<Rightarrow> 64 word \<Rightarrow> real" where
  "int64_to_float rnd t =
     (let v = sint t in if \<bar>v\<bar> \<le> 2 ^ 24 then real_of_int v else rnd (real_of_int v))"

definition int16_to_float :: "16 word \<Rightarrow> c_float" where
  "int16_to_float w = FFin (real_of_int (sint w))"

text \<open>Division of two finite floats whose quotient is in range, the divisor being +0 when
  it is zero (a converted integer is never -0): IEEE 754 gives an infinity or NaN for a
  zero divisor and does not trap.\<close>

definition float_div :: "(real \<Rightarrow> real) \<Rightarrow> real \<Rightarrow> real \<Rightarrow> c_float" where
  "float_div rnd a b =
     (if b = 0 then (if a = 0 then FNaN else if a > 0 then FPosInf else FNegInf)
      else FFin (rnd (a / b)))"

section \<open>Shared state of the two tasks\<close>

definition EI_CLASSIFIER_RAW_SAMPLE_COUNT :: int where
  "EI_CLASSIFIER_RAW_SAMPLE_COUNT = 416"

definition EI_IMPULSE_OK :: int where
  "EI_IMPULSE_OK = 0"

record performance_metrics_t =
  audio_capture_us :: "64 word"
  inference_us :: "64 word"
  display_update_us :: "64 word"
  total_cycle_us :: "64 word"
  fps :: c_float
  inference_count :: "32 word"

text \<open>The lines written with \<open>ESP_LOGE\<close> and \<open>ESP_LOGI\<close> in the inference loop, by what
  they report: the failure code; the per-cycle breakdown (result and metrics); the
  ten-second summary (metrics).\<close>

datatype log_line =
    Log_Inference_Failed int
  | Log_Inference bool performance_metrics_t
  | Log_Summary performance_metrics_t

text \<open>
  The globals of the program, the locals that the two task loops keep across
  iterations (\<open>buffer_index\<close> of the capture task; \<open>cycle_start_time\<close> and
  \<open>last_report_time\<close> of the inference task), and the two output devices (the I2C bus
  and the log console).
\<close>

record sys_state =
  oled_buffer :: framebuffer
  inference_buffer :: "16 word list"
  audio_ready :: bool
  perf_metrics :: performance_metrics_t
  audio_capture_start_time :: "64 word"
  buffer_index :: int
  cycle_start_time :: "64 word"
  last_report_time :: "64 word"
  i2c_wire :: i2c_bus
  console :: "log_line list"

section \<open>Audio capture task\<close>

text \<open>\<open>(int16_t)(i2s_buffer[i] >> 14)\<close>: arithmetic shift of the signed 32-bit sample, then
  truncation to the low 16 bits.\<close>

definition convert_sample :: "32 word \<Rightarrow> 16 word" where
  "convert_sample raw = ucast (signed_drop_bit 14 raw)"

text \<open>
  The body of the \<open>for\<close> loop for one sample. \<open>now\<close> is what \<open>esp_timer_get_time\<close>
  returns if it is called while this sample is processed.
\<close>

definition capture_body :: "64 word \<Rightarrow> 32 word \<Rightarrow> sys_state \<Rightarrow> sys_state" where
  "capture_body now raw s =
     (let s1 = s\<lparr>inference_buffer :=
                   (inference_buffer s)[nat (buffer_index s) := convert_sample raw],
                 buffer_index := buffer_index s + 1\<rparr>
      in if buffer_index s1 \<ge> EI_CLASSIFIER_RAW_SAMPLE_COUNT
         then s1\<lparr>perf_metrics :=
                    (perf_metrics s1)\<lparr>audio_capture_us := now - audio_capture_start_time s1\<rparr>,
                  audio_ready := True,
                  buffer_index := 0\<rparr>
         else s1)"

text \<open>The \<open>for\<close> loop over the samples of one read, with its guard
  \<open>buffer_index < EI_CLASSIFIER_RAW_SAMPLE_COUNT\<close>.\<close>

fun capture_loop :: "(64 word \<times> 32 word) list \<Rightarrow> sys_state \<Rightarrow> sys_state" where
  "capture_loop [] s = s"
| "capture_loop ((now, raw) # rest) s =
     (if buffer_index s < EI_CLASSIFIER_RAW_SAMPLE_COUNT
      then capture_loop rest (capture_body now raw s)
      else s)"

definition capture_begin :: "64 word \<Rightarrow> sys_state \<Rightarrow> sys_state" where
  "capture_begin t0 s =
     (if buffer_index s = 0 then s\<lparr>audio_capture_start_time := t0\<rparr> else s)"

text \<open>One iteration of the \<open>while (1)\<close> loop of \<open>audio_capture_task\<close>: \<open>ret\<close> and \<open>chunk\<close>
  are the status and the samples of \<open>i2s_channel_read\<close>.\<close>

definition capture_iteration ::
  "64 word \<Rightarrow> esp_err_t \<Rightarrow> (64 word \<times> 32 word) list \<Rightarrow> sys_state \<Rightarrow> sys_state" where
  "capture_iteration t0 ret chunk s =
     (let s0 = capture_begin t0 s
      in if ret = ESP_OK then capture_loop chunk s0 else s0)"

section \<open>Inference task\<close>

text \<open>The two label tests, \<open>strcmp(label, "normal") == 0 || strcmp(label, "Normal") == 0\<close>
  and the same for "abnormal".\<close>

definition is_normal_label :: "string \<Rightarrow> bool" where
  "is_normal_label label = (label = ''normal'' \<or> label = ''Normal'')"

definition is_abnormal_label :: "string \<Rightarrow> bool" where
  "is_abnormal_label label = (label = ''abnormal'' \<or> label = ''Abnormal'')"

text \<open>The loop over \<open>result.classification\<close> that picks the two scores; both start at
  \<open>0.0f\<close>. The pair is (normal score, anomaly score).\<close>

fun extract_scores_loop :: "(string \<times> c_float) list \<Rightarrow> c_float \<times> c_float \<Rightarrow> c_float \<times> c_float" where
  "extract_scores_loop [] acc = acc"
| "extract_scores_loop ((label, v) # rest) (normal_score, anomaly_score) =
     (if is_normal_label label
      then extract_scores_loop rest (v, anomaly_score)
      else if is_abnormal_label label
      then extract_scores_loop rest (normal_score, v)
      else extract_scores_loop rest (normal_score, anomaly_score))"

definition extract_scores :: "(string \<times> c_float) list \<Rightarrow> c_float \<times> c_float" where
  "extract_scores classification = extract_scores_loop classification (FFin 0, FFin 0)"

text \<open>The warning box drawn around the anomaly text.\<close>

definition draw_warning_box :: "framebuffer \<Rightarrow> framebuffer" where
  "draw_warning_box buf =
     (let b1 = fold (\<lambda>x b. oled_set_pixel (int x) 38 True (oled_set_pixel (int x) 22 True b))
                 [10..<nat (OLED_WIDTH - 10)] buf
      in fold (\<lambda>y b. oled_set_pixel (OLED_WIDTH - 11) (int y) True
                        (oled_set_pixel 10 (int y) True b))
           [22..<38] b1)"

text \<open>The result section of the screen: the \<open>if (anomaly_score > normal_score)\<close> of the
  render code.\<close>

definition draw_result :: "c_float \<Rightarrow> c_float \<Rightarrow> framebuffer \<Rightarrow> framebuffer" where
  "draw_result normal_score anomaly_score buf =
     (if float_gt anomaly_score normal_score
      then draw_warning_box (oled_draw_string 15 25 ''ANOMALY!'' True buf)
      else oled_draw_string 20 25 ''NORMAL'' True buf)"

text \<open>\<open>printf\<close>'s \<open>%lld\<close>, and C's division truncating towards zero.\<close>

fun dec_digits :: "nat \<Rightarrow> string" where
  "dec_digits n =
     (if n < 10 then [char_of (48 + n)]
      else dec_digits (n div 10) @ [char_of (48 + n mod 10)])"

definition printf_lld :: "int \<Rightarrow> string" where
  "printf_lld v = (if v < 0 then CHR ''-'' # dec_digits (nat (- v)) else dec_digits (nat v))"

definition c_div :: "int \<Rightarrow> int \<Rightarrow> int" where
  "c_div a b = sgn a * sgn b * (\<bar>a\<bar> div \<bar>b\<bar>)"

text \<open>
  The two \<open>snprintf\<close> texts (at most 31 characters are kept). How \<open>%.0f\<close> prints
  \<open>score * 100\<close> is left to the parameter \<open>fmt\<close>.
\<close>

definition score_text :: "(c_float \<Rightarrow> string) \<Rightarrow> c_float \<Rightarrow> c_float \<Rightarrow> string" where
  "score_text fmt normal_score anomaly_score =
     take 31 (''N:'' @ fmt normal_score @ '' A:'' @ fmt anomaly_score)"

definition timing_text :: "64 word \<Rightarrow> string" where
  "timing_text us = take 31 (printf_lld (c_div (sint us) 1000) @ ''ms'')"

definition render_frame :: "(c_float \<Rightarrow> string) \<Rightarrow> c_float \<Rightarrow> c_float \<Rightarrow> 64 word \<Rightarrow> framebuffer" where
  "render_frame fmt normal_score anomaly_score inf_us =
     (let b0 = oled_clear_buffer;
          b1 = oled_draw_string 10 5 ''FAN STATUS'' True b0;
          b2 = fold (\<lambda>x b. oled_set_pixel (int x) 16 True b) [0..<nat OLED_WIDTH] b1;
          b3 = draw_result normal_score anomaly_score b2;
          b4 = oled_draw_string 20 45 (score_text fmt normal_score anomaly_score) True b3
      in oled_draw_string 5 55 (timing_text inf_us) True b4)"

text \<open>
  What the platform and the classifier library provide: the I2C driver, the rounding of
  single-precision arithmetic, the \<open>%.0f\<close> formatting, and \<open>run_classifier\<close>, a function
  from the signal (the window, read through \<open>signal.get_data\<close> as floats) to the status
  and the list of (label, value) pairs.
\<close>

record platform =
  i2c_drv :: i2c_driver
  float_rnd :: "real \<Rightarrow> real"
  printf_f0 :: "c_float \<Rightarrow> string"
  run_classifier :: "c_float list \<Rightarrow> int \<times> (string \<times> c_float) list"

text \<open>The readings of \<open>esp_timer_get_time\<close> during one cycle, in the order of the calls.\<close>

record cycle_times =
  t_cycle_start :: "64 word"
  t_inference_start :: "64 word"
  t_inference_end :: "64 word"
  t_display_start :: "64 word"
  t_display_end :: "64 word"
  t_cycle_end :: "64 word"
  t_current :: "64 word"

text \<open>The tail of a successful cycle: the ten-second summary.\<close>

definition report_summary :: "64 word \<Rightarrow> sys_state \<Rightarrow> sys_state" where
  "report_summary current_time s =
     (if 10000000 \<le>s current_time - last_report_time s
      then s\<lparr>console := console s @ [Log_Summary (perf_metrics s)],
             last_report_time := current_time\<rparr>
      else s)"

text \<open>The metrics update after the display has been flushed.\<close>

definition update_cycle_metrics :: "(real \<Rightarrow> real) \<Rightarrow> cycle_times \<Rightarrow> sys_state \<Rightarrow> sys_state" where
  "update_cycle_metrics rnd T s =
     (let m1 = (perf_metrics s)\<lparr>display_update_us := t_display_end T - t_display_start T\<rparr>;
          m2 = m1\<lparr>total_cycle_us := t_cycle_end T - cycle_start_time s\<rparr>;
          m3 = m2\<lparr>inference_count := inference_count m2 + 1\<rparr>;
          m4 = m3\<lparr>fps := float_div rnd 1000000 (int64_to_float rnd (total_cycle_us m3))\<rparr>
      in s\<lparr>perf_metrics := m4\<rparr>)"

text \<open>
  One iteration of the \<open>while (1)\<close> loop of \<open>inference_task\<close>. The delays
  (\<open>vTaskDelay\<close>) do not change the state.
\<close>

definition inference_iteration :: "platform \<Rightarrow> cycle_times \<Rightarrow> sys_state \<Rightarrow> sys_state" where
  "inference_iteration P T s =
     (if \<not> audio_ready s then s
      else
        let s1 = s\<lparr>cycle_start_time := t_cycle_start T, audio_ready := False\<rparr>;
            (res, classification) = run_classifier P (map int16_to_float (inference_buffer s1));
            s2 = s1\<lparr>perf_metrics :=
                      (perf_metrics s1)\<lparr>inference_us := t_inference_end T - t_inference_start T\<rparr>\<rparr>
        in if res \<noteq> EI_IMPULSE_OK
           then s2\<lparr>console := console s2 @ [Log_Inference_Failed res]\<rparr>
           else
             let (normal_score, anomaly_score) = extract_scores classification;
                 fb = render_frame (printf_f0 P) normal_score anomaly_score
                        (inference_us (perf_metrics s2));
                 s3 = s2\<lparr>oled_buffer := fb,
                         i2c_wire := snd (oled_update (i2c_drv P) fb (i2c_wire s2))\<rparr>;
                 s4 = update_cycle_metrics (float_rnd P) T s3;
                 s5 = s4\<lparr>console := console s4 @
                           [Log_Inference (float_gt anomaly_score normal_score) (perf_metrics s4)]\<rparr>
             in report_summary (t_current T) s5)"

section \<open>The two tasks together\<close>

text \<open>
  The tasks run on two cores and share \<open>inference_buffer\<close>, \<open>audio_ready\<close> and
  \<open>perf_metrics\<close> with no lock. Their joint behaviour is modelled by interleaving three
  kinds of steps: the start-of-window test of the capture loop, the processing of one
  sample by the capture loop, and one iteration of the inference loop. Every such
  interleaving is a behaviour of the program (the scheduler may run the capture task
  for any number of samples while the inference task sleeps); the program has further
  behaviours, in which the classifier reads the window while samples are being written.
\<close>

datatype event =
    Capture_Begin "64 word"
  | Capture_Sample "64 word" "32 word"
  | Inference_Poll cycle_times

fun step :: "platform \<Rightarrow> event \<Rightarrow> sys_state \<Rightarrow> sys_state" where
  "step P (Capture_Begin t0) s = capture_begin t0 s"
| "step P (Capture_Sample now raw) s = capture_loop [(now, raw)] s"
| "step P (Inference_Poll T) s = inference_iteration P T s"

fun run :: "platform \<Rightarrow> event list \<Rightarrow> sys_state \<Rightarrow> sys_state" where
  "run P [] s = s"
| "run P (e # es) s = run P es (step P e s)"

text \<open>The state when both tasks start: zero-initialised globals, and \<open>t_start\<close> the timer
  reading that initialises \<open>last_report_time\<close>. The framebuffer holds what the start-up
  screen left in it.\<close>

definition initial_state :: "framebuffer \<Rightarrow> i2c_bus \<Rightarrow> 64 word \<Rightarrow> sys_state" where
  "initial_state fb bus t_start =
     \<lparr>oled_buffer = fb,
      inference_buffer = replicate (nat EI_CLASSIFIER_RAW_SAMPLE_COUNT) 0,
      audio_ready = False,
      perf_metrics = \<lparr>audio_capture_us = 0, inference_us = 0, display_update_us = 0,
                       total_cycle_us = 0, fps = FFin 0, inference_count = 0\<rparr>,
      audio_capture_start_time = 0,
      buffer_index = 0,
      cycle_start_time = 0,
      last_report_time = t_start,
      i2c_wire = bus,
      console = []\<rparr>"

text \<open>The windows handed to the classifier along a run, and the number of samples the
  capture task has processed.\<close>

fun windows_read :: "platform \<Rightarrow> event list \<Rightarrow> sys_state \<Rightarrow> 16 word list list" where
  "windows_read P [] s = []"
| "windows_read P (Inference_Poll T # es) s =
     (if audio_ready s then [inference_buffer s] else []) @
       windows_read P es (step P (Inference_Poll T) s)"
| "windows_read P (e # es) s = windows_read P es (step P e s)"

fun is_sample :: "event \<Rightarrow> bool" where
  "is_sample (Capture_Sample now raw) = True"
| "is_sample _ = False"

definition samples_of :: "event list \<Rightarrow> nat" where
  "samples_of es = length (filter is_sample es)"

section \<open>Vocabulary of the renderer's properties\<close>

text \<open>
  The supported characters, in the specification's words: A to Z in either case, 0 to 9,
  space, exclamation mark and colon (by character code).
\<close>

definition supported_char :: "char \<Rightarrow> bool" where
  "supported_char c =
     (let k = (of_char c :: int) in
      (65 \<le> k \<and> k \<le> 90) \<or> (97 \<le> k \<and> k \<le> 122) \<or> (48 \<le> k \<and> k \<le> 57) \<or>
      k = 32 \<or> k = 33 \<or> k = 58)"

text \<open>The character each row of \<open>font5x7\<close> is the glyph of, as the table's comments name
  them, and the upper-case form of a character.\<close>

definition glyph_order :: string where
  "glyph_order = ''ABCDEFGHIJKLMNOPQRSTUVWXYZ !0123456789:''"

definition char_upper :: "char \<Rightarrow> char" where
  "char_upper c =
     (let k = (of_char c :: int) in if 97 \<le> k \<and> k \<le> 122 then char_of (k - 32) else c)"

text \<open>Pixel \<open>(px, py)\<close> belongs to glyph \<open>g\<close> drawn at \<open>(x, y)\<close>: it is \<open>(x + i, y + j)\<close> for
  a set bit \<open>j\<close> of column \<open>i\<close> of row \<open>g\<close> of the table.\<close>

definition glyph_pixel :: "nat \<Rightarrow> int \<Rightarrow> int \<Rightarrow> int \<Rightarrow> int \<Rightarrow> bool" where
  "glyph_pixel g x y px py =
     (\<exists>i<5. \<exists>j<7. px = x + int i \<and> py = y + int j \<and> bit (font5x7 ! g ! i) j)"

section \<open>Vocabulary of the task properties\<close>

text \<open>The fill index is inside the window, and the progress measure of the handoff: the
  samples in the window being filled, plus one window's worth while the flag is set.\<close>

definition index_ok :: "sys_state \<Rightarrow> bool" where
  "index_ok s = (0 \<le> buffer_index s \<and> buffer_index s < 416)"


text \<open>
  A scripted environment for concrete runs: an I2C driver that returns the same status
  for every message, a classifier that returns a fixed status and result, arithmetic
  without rounding error and an empty \<open>%.0f\<close> text; a cycle that starts at time \<open>t\<close> and
  whose classification and display phases take \<open>d\<close> microseconds each; and the state at
  start-up with a cleared framebuffer.
\<close>

definition i2c_always :: "esp_err_t \<Rightarrow> i2c_driver" where
  "i2c_always status bus msg = status"

definition scripted_classifier ::
  "int \<Rightarrow> (string \<times> c_float) list \<Rightarrow> c_float list \<Rightarrow> int \<times> (string \<times> c_float) list" where
  "scripted_classifier res classification signal = (res, classification)"

definition exact_rounding :: "real \<Rightarrow> real" where
  "exact_rounding r = r"

definition no_text :: "c_float \<Rightarrow> string" where
  "no_text v = []"

definition scripted_platform :: "esp_err_t \<Rightarrow> int \<Rightarrow> (string \<times> c_float) list \<Rightarrow> platform" where
  "scripted_platform i2c_status res classification =
     \<lparr>i2c_drv = i2c_always i2c_status, float_rnd = exact_rounding, printf_f0 = no_text,
      run_classifier = scripted_classifier res classification\<rparr>"

definition cycle_at :: "64 word \<Rightarrow> 64 word \<Rightarrow> cycle_times" where
  "cycle_at t d =
     \<lparr>t_cycle_start = t, t_inference_start = t, t_inference_end = t + d,
      t_display_start = t + d, t_display_end = t + d + d, t_cycle_end = t + d + d,
      t_current = t + d + d\<rparr>"

definition boot_state :: sys_state where
  "boot_state = initial_state oled_clear_buffer [] 0"

text \<open>The bus traffic of one page as the display controller expects it: page address,
  column address low and high (each a command message with control byte 0x00), then the
  data message with control byte 0x40 and the 128 bytes of the page.\<close>

definition page_messages :: "framebuffer \<Rightarrow> nat \<Rightarrow> 8 word list list" where
  "page_messages buf page =
     [[0x00, 0xB0 + of_nat page], [0x00, 0x00], [0x00, 0x10],
      0x40 # take 128 (drop (128 * page) buf)]"

text \<open>The number of ten-second summaries on the console.\<close>

fun is_summary :: "log_line \<Rightarrow> bool" where
  "is_summary (Log_Summary m) = True"
| "is_summary _ = False"

definition summary_count :: "log_line list \<Rightarrow> nat" where
  "summary_count con = length (filter is_summary con)"

text \<open>The state of a cycle whose classification succeeded, after the metrics update and
  before its log lines: the steps of \<open>inference_iteration\<close> on that path, composed.\<close>

definition completed_cycle ::
  "platform \<Rightarrow> cycle_times \<Rightarrow> c_float \<Rightarrow> c_float \<Rightarrow> sys_state \<Rightarrow> sys_state" where
  "completed_cycle P T normal_score anomaly_score s =
     update_cycle_metrics (float_rnd P) T
       (s\<lparr>cycle_start_time := t_cycle_start T, audio_ready := False,
          perf_metrics := (perf_metrics s)\<lparr>inference_us := t_inference_end T - t_inference_start T\<rparr>,
          oled_buffer := render_frame (printf_f0 P) normal_score anomaly_score
                           (t_inference_end T - t_inference_start T),
          i2c_wire := snd (oled_update (i2c_drv P)
                            (render_frame (printf_f0 P) normal_score anomaly_score
                               (t_inference_end T - t_inference_start T)) (i2c_wire s))\<rparr>)"

text \<open>
  What a frame shows. Pixel \<open>(px, py)\<close> belongs to the string \<open>str\<close> drawn at \<open>(x, y)\<close>: it
  belongs to the glyph of one of its supported characters, the k-th character being
  placed at \<open>x + 6 k\<close>. Pixel \<open>(px, py)\<close> belongs to the warning box: the horizontal
  edges at rows 22 and 38 from column 10 to 117, and the vertical edges at columns 10 and
  117 from row 22 to 37. The result section for a pair of scores is the text ANOMALY! at
  (15, 25) with the box when the anomaly score is greater than the normal score, and
  the text NORMAL at (20, 25) otherwise.
\<close>

fun string_pixel :: "int \<Rightarrow> int \<Rightarrow> string \<Rightarrow> int \<Rightarrow> int \<Rightarrow> bool" where
  "string_pixel x y [] px py = False"
| "string_pixel x y (c # str) px py =
     ((0 \<le> glyph_index c \<and> glyph_pixel (nat (glyph_index c)) x y px py) \<or>
      string_pixel (x + 6) y str px py)"

definition box_pixel :: "int \<Rightarrow> int \<Rightarrow> bool" where
  "box_pixel px py =
     ((10 \<le> px \<and> px < 118 \<and> (py = 22 \<or> py = 38)) \<or>
      ((px = 10 \<or> px = 117) \<and> 22 \<le> py \<and> py < 38))"

definition result_pixel :: "c_float \<Rightarrow> c_float \<Rightarrow> int \<Rightarrow> int \<Rightarrow> bool" where
  "result_pixel normal_score anomaly_score px py =
     (if float_gt anomaly_score normal_score
      then string_pixel 15 25 ''ANOMALY!'' px py \<or> box_pixel px py
      else string_pixel 20 25 ''NORMAL'' px py)"

section \<open>Properties of the framebuffer renderer\<close>

lemma pixel_byte_less: "in_bounds x y \<Longrightarrow> pixel_byte x y < OLED_BUFFER_SIZE"
proof -
  assume "in_bounds x y"
  then have a: "0 \<le> x" "x < 128" "0 \<le> y" "y < 64"
    by (simp_all add: in_bounds_def OLED_WIDTH_def OLED_HEIGHT_def)
  then have "y div 8 \<le> 7" "0 \<le> y div 8" by simp_all
  with a show ?thesis
    unfolding pixel_byte_def OLED_WIDTH_def OLED_BUFFER_SIZE_def OLED_HEIGHT_def by simp
qed

lemma set_pixel_out: "\<not> in_bounds x y \<Longrightarrow> oled_set_pixel x y on buf = buf"
  unfolding in_bounds_def oled_set_pixel_def by auto

lemma set_pixel_in:
  "in_bounds x y \<Longrightarrow> oled_set_pixel x y on buf =
     buf[pixel_byte x y := (if on then (buf ! pixel_byte x y) OR push_bit (nat (y mod 8)) 1
                           else (buf ! pixel_byte x y) AND NOT (push_bit (nat (y mod 8)) 1))]"
  unfolding in_bounds_def oled_set_pixel_def pixel_byte_def by (auto simp: Let_def)

lemma length_set_pixel [simp]: "length (oled_set_pixel x y on buf) = length buf"
  by (cases "in_bounds x y") (simp_all add: set_pixel_in set_pixel_out)

lemma bit_set8: "b < 8 \<Longrightarrow> bit ((w :: 8 word) OR push_bit b 1) k \<longleftrightarrow> (k = b \<or> bit w k)"
  by (auto simp: bit_simps)

lemma bit_clear8:
  "b < 8 \<Longrightarrow> bit ((w :: 8 word) AND NOT (push_bit b 1)) k \<longleftrightarrow> (k \<noteq> b \<and> bit w k)"
  by (auto simp: bit_simps dest: bit_imp_le_length)

lemma bit_set8_pow: "b < 8 \<Longrightarrow> bit ((w :: 8 word) OR 2 ^ b) k \<longleftrightarrow> (k = b \<or> bit w k)"
  using bit_set8[of b w k] by simp

lemma bit_clear8_pow:
  "b < 8 \<Longrightarrow> bit ((w :: 8 word) AND NOT (2 ^ b)) k \<longleftrightarrow> (k \<noteq> b \<and> bit w k)"
  using bit_clear8[of b w k] by simp

text \<open>
  Claim C6. For every coordinate pair outside the 128 x 64 display, \<open>oled_set_pixel\<close>
  returns the framebuffer unchanged. For every pair inside it (the framebuffer having its
  1024 bytes), the length is kept, every byte other than byte \<open>x + (y / 8) * 128\<close> is
  unchanged, in that byte every bit other than bit \<open>y % 8\<close> is unchanged, and that bit
  becomes the requested value.
\<close>

theorem set_pixel_frame:
  "(\<not> (0 \<le> x \<and> x < 128 \<and> 0 \<le> y \<and> y < 64) \<longrightarrow> oled_set_pixel x y on buf = buf) \<and>
   (0 \<le> x \<and> x < 128 \<and> 0 \<le> y \<and> y < 64 \<and> length buf = OLED_BUFFER_SIZE \<longrightarrow>
      length (oled_set_pixel x y on buf) = OLED_BUFFER_SIZE \<and>
      (\<forall>k. k \<noteq> nat (x + (y div 8) * 128) \<longrightarrow> oled_set_pixel x y on buf ! k = buf ! k) \<and>
      (\<forall>b. b \<noteq> nat (y mod 8) \<longrightarrow>
           bit (oled_set_pixel x y on buf ! nat (x + (y div 8) * 128)) b
             = bit (buf ! nat (x + (y div 8) * 128)) b) \<and>
      bit (oled_set_pixel x y on buf ! nat (x + (y div 8) * 128)) (nat (y mod 8)) = on)"
proof (intro conjI impI)
  assume "\<not> (0 \<le> x \<and> x < 128 \<and> 0 \<le> y \<and> y < 64)"
  then have "\<not> in_bounds x y" by (simp add: in_bounds_def OLED_WIDTH_def OLED_HEIGHT_def)
  then show "oled_set_pixel x y on buf = buf" by (rule set_pixel_out)
next
  assume a: "0 \<le> x \<and> x < 128 \<and> 0 \<le> y \<and> y < 64 \<and> length buf = OLED_BUFFER_SIZE"
  then have ib: "in_bounds x y" by (simp add: in_bounds_def OLED_WIDTH_def OLED_HEIGHT_def)
  have pb: "pixel_byte x y = nat (x + (y div 8) * 128)"
    by (simp add: pixel_byte_def OLED_WIDTH_def)
  have lt: "pixel_byte x y < length buf" using pixel_byte_less[OF ib] a by simp
  have b8: "nat (y mod 8) < 8" by simp
  show "length (oled_set_pixel x y on buf) = OLED_BUFFER_SIZE" using a by simp
  show "\<forall>k. k \<noteq> nat (x + (y div 8) * 128) \<longrightarrow> oled_set_pixel x y on buf ! k = buf ! k"
    by (simp add: set_pixel_in[OF ib] pb)
  show "\<forall>b. b \<noteq> nat (y mod 8) \<longrightarrow>
           bit (oled_set_pixel x y on buf ! nat (x + (y div 8) * 128)) b
             = bit (buf ! nat (x + (y div 8) * 128)) b"
    using lt b8 unfolding set_pixel_in[OF ib] pb[symmetric]
    by (simp add: bit_set8_pow bit_clear8_pow)
  show "bit (oled_set_pixel x y on buf ! nat (x + (y div 8) * 128)) (nat (y mod 8)) = on"
    using lt b8 unfolding set_pixel_in[OF ib] pb[symmetric]
    by (simp add: bit_set8_pow bit_clear8_pow)
qed

theorem set_pixel_frame_witness:
  "oled_set_pixel 200 3 True oled_clear_buffer = oled_clear_buffer \<and>
   length (oled_set_pixel 3 10 True oled_clear_buffer) = OLED_BUFFER_SIZE \<and>
   bit (oled_set_pixel 3 10 True oled_clear_buffer ! 131) 2"
  using set_pixel_frame[of 200 3 True oled_clear_buffer]
    set_pixel_frame[of 3 10 True oled_clear_buffer]
  by (simp add: oled_clear_buffer_def)

lemma pixel_addr_inj:
  assumes "in_bounds x y" "in_bounds px py"
    and "pixel_byte px py = pixel_byte x y" "nat (py mod 8) = nat (y mod 8)"
  shows "px = x \<and> py = y"
proof -
  from assms(1,2) have a: "0 \<le> x" "x < 128" "0 \<le> y" "0 \<le> px" "px < 128" "0 \<le> py"
    by (simp_all add: in_bounds_def OLED_WIDTH_def OLED_HEIGHT_def)
  then have d: "0 \<le> y div 8" "0 \<le> py div 8" by simp_all
  from assms(3) a d have e: "px + (py div 8) * 128 = x + (y div 8) * 128"
    unfolding pixel_byte_def OLED_WIDTH_def by simp
  from assms(4) have m: "py mod 8 = y mod 8" by simp
  have "px = (px + (py div 8) * 128) mod 128" using a by simp
  also have "\<dots> = (x + (y div 8) * 128) mod 128" by (simp only: e)
  also have "\<dots> = x" using a by simp
  finally have px: "px = x" .
  with e have "py div 8 = y div 8" by simp
  with m have "py = y" by (metis div_mult_mod_eq)
  with px show ?thesis by simp
qed

lemma pixel_at_set_pixel:
  assumes len: "length buf = OLED_BUFFER_SIZE" and ib: "in_bounds px py"
  shows "pixel_at (oled_set_pixel x y on buf) px py =
           (if px = x \<and> py = y then on else pixel_at buf px py)"
proof (cases "in_bounds x y")
  case False
  with ib have "\<not> (px = x \<and> py = y)" by auto
  then show ?thesis using False by (auto simp: set_pixel_out)
next
  case True
  have lt: "pixel_byte x y < length buf" using pixel_byte_less[OF True] len by simp
  have b8: "nat (y mod 8) < 8" by simp
  show ?thesis
  proof (cases "pixel_byte px py = pixel_byte x y")
    case pbeq: True
    show ?thesis
    proof (cases "nat (py mod 8) = nat (y mod 8)")
      case True
      with pbeq pixel_addr_inj[OF \<open>in_bounds x y\<close> ib] have "px = x \<and> py = y" by simp
      then show ?thesis using lt b8 unfolding pixel_at_def set_pixel_in[OF \<open>in_bounds x y\<close>]
        by (simp add: bit_set8_pow bit_clear8_pow)
    next
      case False
      then have "\<not> (px = x \<and> py = y)" by auto
      then show ?thesis using lt b8 pbeq False unfolding pixel_at_def set_pixel_in[OF \<open>in_bounds x y\<close>]
        by (auto simp add: bit_set8_pow bit_clear8_pow)
    qed
  next
    case False
    then have "\<not> (px = x \<and> py = y)" by auto
    then show ?thesis using False unfolding pixel_at_def set_pixel_in[OF True] by auto
  qed
qed

lemma col_test: "j < 8 \<Longrightarrow> ((col :: 8 word) AND push_bit j 1 \<noteq> 0) = bit col j"
  by (metis and.right_neutral and_exp_eq_0_iff_not_bit push_bit_eq_mult mult.commute mult_1 push_bit_of_1)

lemma pixel_at_fold_rows:
  assumes "length buf = OLED_BUFFER_SIZE" "in_bounds px py" "\<forall>j\<in>set js. j < 8"
  shows "pixel_at (fold (\<lambda>j b. if col AND push_bit j 1 \<noteq> 0
                                then oled_set_pixel cx (y + int j) on b else b) js buf) px py =
         (if px = cx \<and> (\<exists>j\<in>set js. py = y + int j \<and> bit (col :: 8 word) j) then on
          else pixel_at buf px py)"
  using assms
proof (induction js arbitrary: buf)
  case Nil
  then show ?case by simp
next
  case (Cons j js)
  let ?b = "if col AND push_bit j 1 \<noteq> 0 then oled_set_pixel cx (y + int j) on buf else buf"
  have len: "length ?b = OLED_BUFFER_SIZE" using Cons.prems(1) by simp
  have j8: "j < 8" using Cons.prems(3) by simp
  have IH: "pixel_at (fold (\<lambda>j b. if col AND push_bit j 1 \<noteq> 0
                                then oled_set_pixel cx (y + int j) on b else b) js ?b) px py =
         (if px = cx \<and> (\<exists>j\<in>set js. py = y + int j \<and> bit col j) then on
          else pixel_at ?b px py)"
    using Cons.IH[OF len Cons.prems(2)] Cons.prems(3) by simp
  have hd: "pixel_at ?b px py = (if px = cx \<and> py = y + int j \<and> bit col j then on else pixel_at buf px py)"
    using pixel_at_set_pixel[OF Cons.prems(1) Cons.prems(2)] col_test[OF j8] by auto
  show ?case unfolding fold_Cons o_apply IH hd by auto
qed

lemma length_draw_column [simp]: "length (draw_column cx y col on buf) = length buf"
proof -
  have "length (fold (\<lambda>j b. if col AND push_bit j 1 \<noteq> 0 then oled_set_pixel cx (y + int j) on b else b) js buf) = length buf" for js
    by (induction js arbitrary: buf) simp_all
  then show ?thesis by (simp add: draw_column_def)
qed

lemma pixel_at_draw_column:
  assumes "length buf = OLED_BUFFER_SIZE" "in_bounds px py"
  shows "pixel_at (draw_column cx y col on buf) px py =
         (if px = cx \<and> (\<exists>j<7. py = y + int j \<and> bit col j) then on else pixel_at buf px py)"
proof -
  have "\<forall>j\<in>set [0..<7]. j < 8" by simp
  from pixel_at_fold_rows[OF assms this, of col cx y on]
  show ?thesis unfolding draw_column_def by (simp add: Bex_def)
qed

lemma pixel_at_fold_cols:
  assumes "length buf = OLED_BUFFER_SIZE" "in_bounds px py"
  shows "pixel_at (fold (\<lambda>i b. draw_column (x + int i) y (g ! i) on b) is buf) px py =
         (if \<exists>i\<in>set is. \<exists>j<7. px = x + int i \<and> py = y + int j \<and> bit (g ! i) j then on
          else pixel_at buf px py)"
  using assms
proof (induction "is" arbitrary: buf)
  case Nil
  then show ?case by simp
next
  case (Cons i "is")
  have len: "length (draw_column (x + int i) y (g ! i) on buf) = OLED_BUFFER_SIZE"
    using Cons.prems(1) by simp
  show ?case
    unfolding fold_Cons o_apply Cons.IH[OF len Cons.prems(2)]
      pixel_at_draw_column[OF Cons.prems(1) Cons.prems(2)]
    by auto
qed

lemma glyph_index_range: "glyph_index c = -1 \<or> (0 \<le> glyph_index c \<and> glyph_index c < 39)"
  unfolding glyph_index_def Let_def by auto

lemma char_code_eq: "(c = d) = ((of_char c :: int) = of_char d)"
  by simp

lemma supported_iff: "supported_char c \<longleftrightarrow> 0 \<le> glyph_index c"
  unfolding glyph_index_def supported_char_def Let_def
    char_code_eq[of c "CHR '' ''"] char_code_eq[of c "CHR ''!''"] char_code_eq[of c "CHR '':''"]
  by auto

lemma length_draw_char [simp]: "length (oled_draw_char x y c on buf) = length buf"
proof -
  have "length (fold (\<lambda>i b. draw_column (x + int i) y (g ! i) on b) is buf) = length buf" for g "is"
    by (induction "is" arbitrary: buf) simp_all
  then show ?thesis by (simp add: oled_draw_char_def Let_def)
qed

lemma pixel_at_draw_char:
  assumes "length buf = OLED_BUFFER_SIZE" "in_bounds px py" "0 \<le> glyph_index c"
  shows "pixel_at (oled_draw_char x y c on buf) px py =
           (if glyph_pixel (nat (glyph_index c)) x y px py then on else pixel_at buf px py)"
  using assms(3) pixel_at_fold_cols[OF assms(1,2), of x y "font5x7 ! nat (glyph_index c)" on "[0..<5]"]
  unfolding oled_draw_char_def glyph_pixel_def Let_def by (simp add: Bex_def)

lemma draw_char_unsupported: "glyph_index c < 0 \<Longrightarrow> oled_draw_char x y c on buf = buf"
  by (simp add: oled_draw_char_def Let_def)

lemma glyph_order_upper: "\<forall>k\<in>set [0..<26]. glyph_order ! k = char_of (65 + int k)"
  unfolding glyph_order_def by code_simp

lemma glyph_order_digit: "\<forall>k\<in>set [0..<10]. glyph_order ! (28 + k) = char_of (48 + int k)"
  unfolding glyph_order_def by code_simp

lemma glyph_row_of_char:
  assumes "supported_char c"
  shows "glyph_order ! nat (glyph_index c) = char_upper c"
proof -
  let ?k = "of_char c :: int"
  have kc: "char_of ?k = c" by simp
  have sp: "c = CHR '' '' \<longleftrightarrow> ?k = 32" "c = CHR ''!'' \<longleftrightarrow> ?k = 33" "c = CHR '':'' \<longleftrightarrow> ?k = 58"
    using char_code_eq[of c "CHR '' ''"] char_code_eq[of c "CHR ''!''"] char_code_eq[of c "CHR '':''"]
    by simp_all
  from assms consider
      (up) "65 \<le> ?k" "?k \<le> 90" | (lo) "97 \<le> ?k" "?k \<le> 122" | (dg) "48 \<le> ?k" "?k \<le> 57"
    | (s) "?k = 32" | (e) "?k = 33" | (co) "?k = 58"
    unfolding supported_char_def Let_def by blast
  then show ?thesis
  proof cases
    case up
    then have gi: "glyph_index c = ?k - 65" by (simp add: glyph_index_def Let_def)
    from up have "nat (?k - 65) \<in> set [0..<26]" by auto
    with glyph_order_upper have "glyph_order ! nat (?k - 65) = char_of (65 + int (nat (?k - 65)))" by blast
    also have "65 + int (nat (?k - 65)) = ?k" using up by simp
    finally show ?thesis using up gi kc by (simp add: char_upper_def Let_def)
  next
    case lo
    then have gi: "glyph_index c = ?k - 97" by (simp add: glyph_index_def Let_def)
    from lo have "nat (?k - 97) \<in> set [0..<26]" by auto
    with glyph_order_upper have "glyph_order ! nat (?k - 97) = char_of (65 + int (nat (?k - 97)))" by blast
    also have "65 + int (nat (?k - 97)) = ?k - 32" using lo by simp
    finally show ?thesis using lo gi by (simp add: char_upper_def Let_def)
  next
    case dg
    then have gi: "glyph_index c = 28 + (?k - 48)" by (simp add: glyph_index_def Let_def sp)
    from dg have "nat (?k - 48) \<in> set [0..<10]" by auto
    with glyph_order_digit have "glyph_order ! (28 + nat (?k - 48)) = char_of (48 + int (nat (?k - 48)))" by blast
    also have "48 + int (nat (?k - 48)) = ?k" using dg by simp
    also have "28 + nat (?k - 48) = nat (28 + (?k - 48))" using dg by simp
    finally show ?thesis using dg gi kc by (simp add: char_upper_def Let_def)
  next
    case s
    with sp have "c = CHR '' ''" by simp
    then show ?thesis by (simp add: glyph_index_def glyph_order_def char_upper_def)
  next
    case e
    with sp have "c = CHR ''!''" by simp
    then show ?thesis by (simp add: glyph_index_def glyph_order_def char_upper_def)
  next
    case co
    with sp have "c = CHR '':''" by simp
    then show ?thesis by (simp add: glyph_index_def glyph_order_def char_upper_def)
  qed
qed

text \<open>
  Claim C7. Let the framebuffer have its 1024 bytes. For every supported character \<open>c\<close>
  (A to Z in either case, 0 to 9, space, exclamation mark, colon), \<open>oled_draw_char\<close> uses
  the row of \<open>font5x7\<close> that the table gives to \<open>c\<close> (to its upper-case form, for a
  letter), and after the call every pixel \<open>(x + i, y + j)\<close> of the display for which bit
  \<open>j\<close> of column \<open>i\<close> of that row is set (\<open>i < 5\<close>, \<open>j < 7\<close>) has the value \<open>on\<close>,
  while every other pixel of the display is as before. For every unsupported character the
  framebuffer is returned unchanged.
\<close>

theorem draw_char_glyph:
  assumes "length buf = OLED_BUFFER_SIZE"
  shows "(supported_char c \<longrightarrow>
            0 \<le> glyph_index c \<and> glyph_index c < 39 \<and>
            glyph_order ! nat (glyph_index c) = char_upper c \<and>
            length (oled_draw_char x y c on buf) = OLED_BUFFER_SIZE \<and>
            (\<forall>px py. in_bounds px py \<longrightarrow>
               pixel_at (oled_draw_char x y c on buf) px py =
                 (if glyph_pixel (nat (glyph_index c)) x y px py then on
                  else pixel_at buf px py))) \<and>
         (\<not> supported_char c \<longrightarrow> oled_draw_char x y c on buf = buf)"
proof (intro conjI impI allI)
  assume sc: "supported_char c"
  then show ge: "0 \<le> glyph_index c" by (simp add: supported_iff)
  with glyph_index_range[of c] show "glyph_index c < 39" by auto
  from sc show "glyph_order ! nat (glyph_index c) = char_upper c" by (rule glyph_row_of_char)
  show "length (oled_draw_char x y c on buf) = OLED_BUFFER_SIZE" using assms by simp
  fix px py
  assume "in_bounds px py"
  from pixel_at_draw_char[OF assms this ge]
  show "pixel_at (oled_draw_char x y c on buf) px py =
          (if glyph_pixel (nat (glyph_index c)) x y px py then on else pixel_at buf px py)" .
next
  assume "\<not> supported_char c"
  then have "glyph_index c < 0" by (simp add: supported_iff)
  then show "oled_draw_char x y c on buf = buf" by (rule draw_char_unsupported)
qed

theorem draw_char_glyph_witness:
  "supported_char CHR ''a'' \<and> length oled_clear_buffer = OLED_BUFFER_SIZE \<and>
   glyph_index CHR ''a'' = 0 \<and> in_bounds 10 6 \<and>
   pixel_at (oled_draw_char 10 5 CHR ''a'' True oled_clear_buffer) 10 6 \<and>
   \<not> supported_char CHR ''#'' \<and>
   oled_draw_char 10 5 CHR ''#'' True oled_clear_buffer = oled_clear_buffer"
proof -
  have len: "length oled_clear_buffer = OLED_BUFFER_SIZE" by (simp add: oled_clear_buffer_def)
  have sa: "supported_char CHR ''a''" by (simp add: supported_char_def)
  have ns: "\<not> supported_char CHR ''#''" by (simp add: supported_char_def)
  have gi: "glyph_index CHR ''a'' = 0" by (simp add: glyph_index_def)
  have ib: "in_bounds 10 6" by (simp add: in_bounds_def OLED_WIDTH_def OLED_HEIGHT_def)
  have "bit (font5x7 ! 0 ! 0) (1::nat)" by (simp add: font5x7_def)
  then have "(10::int) = 10 + int 0 \<and> (6::int) = 5 + int 1 \<and> bit (font5x7 ! 0 ! 0) (1::nat)" by simp
  then have gp: "glyph_pixel 0 10 5 10 6" unfolding glyph_pixel_def
    by (intro exI[of _ 0] exI[of _ 1]) simp
  from draw_char_glyph[OF len, of "CHR ''a''" 10 5 True] sa ib gp gi
  have "pixel_at (oled_draw_char 10 5 CHR ''a'' True oled_clear_buffer) 10 6" by simp
  moreover from draw_char_glyph[OF len, of "CHR ''#''" 10 5 True] ns
  have "oled_draw_char 10 5 CHR ''#'' True oled_clear_buffer = oled_clear_buffer" by simp
  ultimately show ?thesis using len sa ns gi ib by simp
qed

section \<open>Properties of the capture task and of the handoff\<close>

text \<open>An iteration of the capture task's loop with a successful read is the start-of-window
  step followed by one sample step for each sample of the read, so what holds for all
  runs holds for the loop as it is written.\<close>

lemma capture_loop_stuck:
  "\<not> buffer_index s < EI_CLASSIFIER_RAW_SAMPLE_COUNT \<Longrightarrow> capture_loop chunk s = s"
  by (cases chunk) auto

lemma capture_loop_as_run:
  "capture_loop chunk s = run P (map (\<lambda>(now, raw). Capture_Sample now raw) chunk) s"
proof (induction chunk arbitrary: s)
  case Nil
  then show ?case by simp
next
  case (Cons x chunk)
  obtain now raw where x: "x = (now, raw)" by (cases x)
  show ?case
  proof (cases "buffer_index s < EI_CLASSIFIER_RAW_SAMPLE_COUNT")
    case True
    then show ?thesis using Cons.IH[of "capture_body now raw s"] by (simp add: x)
  next
    case False
    then show ?thesis using Cons.IH[of s] by (simp add: x capture_loop_stuck)
  qed
qed

lemma capture_iteration_as_run:
  "capture_iteration t0 ESP_OK chunk s =
     run P (Capture_Begin t0 # map (\<lambda>(now, raw). Capture_Sample now raw) chunk) s"
  by (simp add: capture_iteration_def capture_loop_as_run[of chunk _ P])

lemma sint_convert_sample:
  "sint (convert_sample raw) = (sint raw div 2 ^ 14 + 2 ^ 15) mod 2 ^ 16 - 2 ^ 15"
proof -
  have "take_bit 16 (uint w) = take_bit 16 (sint w)" for w :: "32 word"
    by (simp add: sint_uint take_bit_signed_take_bit)
  then have "signed_take_bit 15 (uint w) = signed_take_bit 15 (sint w)" for w :: "32 word"
    by (simp add: signed_take_bit_eq_iff_take_bit_eq)
  then have "sint (convert_sample raw) = signed_take_bit 15 (sint (signed_drop_bit 14 raw))"
    unfolding convert_sample_def by (simp add: signed_ucast_eq)
  also have "sint (signed_drop_bit 14 raw) = sint raw div 2 ^ 14"
    by (simp add: sint_signed_drop_bit_eq drop_bit_eq_div)
  also have "signed_take_bit 15 (sint raw div 2 ^ 14) = (sint raw div 2 ^ 14 + 2 ^ 15) mod 2 ^ 16 - 2 ^ 15"
    by (simp add: signed_take_bit_eq_take_bit_shift take_bit_eq_mod)
  finally show ?thesis .
qed

lemma capture_body_buffer:
  "inference_buffer (capture_body now raw s) =
     (inference_buffer s)[nat (buffer_index s) := convert_sample raw]"
  by (simp add: capture_body_def Let_def)

lemma capture_body_index:
  "buffer_index (capture_body now raw s) =
     (if buffer_index s + 1 \<ge> 416 then 0 else buffer_index s + 1)"
  by (simp add: capture_body_def Let_def EI_CLASSIFIER_RAW_SAMPLE_COUNT_def)

lemma capture_body_ready:
  "audio_ready (capture_body now raw s) = (buffer_index s + 1 \<ge> 416 \<or> audio_ready s)"
  by (simp add: capture_body_def Let_def EI_CLASSIFIER_RAW_SAMPLE_COUNT_def)

text \<open>
  Claim C5. For every raw 32-bit sample that the capture loop accepts (the fill index is
  inside the window), the value stored at the fill index is the arithmetic right shift
  of the raw value by 14 bits truncated to 16 bits: read as signed numbers, the stored
  value is \<open>raw div 2^14\<close> (rounding down) wrapped into the 16-bit two's complement
  range. No other slot of the window changes.
\<close>

theorem sample_conversion:
  assumes "0 \<le> buffer_index s" "buffer_index s < EI_CLASSIFIER_RAW_SAMPLE_COUNT"
    and "length (inference_buffer s) = nat EI_CLASSIFIER_RAW_SAMPLE_COUNT"
  shows "inference_buffer (step P (Capture_Sample now raw) s) ! nat (buffer_index s)
           = ucast (signed_drop_bit 14 raw) \<and>
         sint (inference_buffer (step P (Capture_Sample now raw) s) ! nat (buffer_index s))
           = (sint raw div 2 ^ 14 + 2 ^ 15) mod 2 ^ 16 - 2 ^ 15 \<and>
         (\<forall>k. k \<noteq> nat (buffer_index s) \<longrightarrow>
            inference_buffer (step P (Capture_Sample now raw) s) ! k = inference_buffer s ! k)"
proof -
  have st: "inference_buffer (step P (Capture_Sample now raw) s) =
          (inference_buffer s)[nat (buffer_index s) := convert_sample raw]"
    using assms(2) by (simp add: capture_body_buffer)
  have lt: "nat (buffer_index s) < length (inference_buffer s)" using assms by simp
  have v: "inference_buffer (step P (Capture_Sample now raw) s) ! nat (buffer_index s) = convert_sample raw"
    unfolding st using lt by simp
  show ?thesis unfolding v sint_convert_sample unfolding st convert_sample_def by simp
qed

lemma report_summary_fields [simp]:
  "buffer_index (report_summary t s) = buffer_index s"
  "inference_buffer (report_summary t s) = inference_buffer s"
  "audio_ready (report_summary t s) = audio_ready s"
  "perf_metrics (report_summary t s) = perf_metrics s"
  "oled_buffer (report_summary t s) = oled_buffer s"
  "i2c_wire (report_summary t s) = i2c_wire s"
  "cycle_start_time (report_summary t s) = cycle_start_time s"
  "audio_capture_start_time (report_summary t s) = audio_capture_start_time s"
  by (simp_all add: report_summary_def)

lemma update_cycle_metrics_fields [simp]:
  "buffer_index (update_cycle_metrics rnd T s) = buffer_index s"
  "inference_buffer (update_cycle_metrics rnd T s) = inference_buffer s"
  "audio_ready (update_cycle_metrics rnd T s) = audio_ready s"
  "oled_buffer (update_cycle_metrics rnd T s) = oled_buffer s"
  "i2c_wire (update_cycle_metrics rnd T s) = i2c_wire s"
  "console (update_cycle_metrics rnd T s) = console s"
  "last_report_time (update_cycle_metrics rnd T s) = last_report_time s"
  "cycle_start_time (update_cycle_metrics rnd T s) = cycle_start_time s"
  "audio_capture_start_time (update_cycle_metrics rnd T s) = audio_capture_start_time s"
  by (simp_all add: update_cycle_metrics_def Let_def)

lemma inference_iteration_capture_fields:
  "buffer_index (inference_iteration P T s) = buffer_index s"
  "inference_buffer (inference_iteration P T s) = inference_buffer s"
  "audio_ready (inference_iteration P T s) = False"
  by (simp_all add: inference_iteration_def Let_def split: prod.splits)

lemma capture_begin_fields [simp]:
  "buffer_index (capture_begin t s) = buffer_index s"
  "inference_buffer (capture_begin t s) = inference_buffer s"
  "audio_ready (capture_begin t s) = audio_ready s"
  by (simp_all add: capture_begin_def)

lemma step_index_ok: "index_ok s \<Longrightarrow> index_ok (step P e s)"
  by (cases e) (auto simp: index_ok_def inference_iteration_capture_fields capture_body_index
      EI_CLASSIFIER_RAW_SAMPLE_COUNT_def)

lemma step_index:
  assumes "index_ok s"
  shows "buffer_index (step P e s) =
     (if is_sample e then (buffer_index s + 1) mod 416 else buffer_index s)"
proof (cases e)
  case (Capture_Sample now raw)
  from assms have b: "0 \<le> buffer_index s" "buffer_index s < 416" by (simp_all add: index_ok_def)
  show ?thesis
  proof (cases "buffer_index s = 415")
    case True
    with Capture_Sample show ?thesis
      by (simp add: capture_body_index EI_CLASSIFIER_RAW_SAMPLE_COUNT_def)
  next
    case False
    with b have "buffer_index s + 1 < 416" by simp
    with b Capture_Sample show ?thesis
      by (simp add: capture_body_index EI_CLASSIFIER_RAW_SAMPLE_COUNT_def)
  qed
qed (simp_all add: inference_iteration_capture_fields)

lemma run_append: "run P (es @ fs) s = run P fs (run P es s)"
  by (induction es arbitrary: s) simp_all

lemma run_index_ok: "index_ok s \<Longrightarrow> index_ok (run P es s)"
  by (induction es arbitrary: s) (simp_all add: step_index_ok)

lemma run_index:
  "index_ok s \<Longrightarrow> buffer_index (run P es s) = (buffer_index s + int (samples_of es)) mod 416"
proof (induction es arbitrary: s)
  case Nil
  then show ?case by (simp add: samples_of_def index_ok_def)
next
  case (Cons e es)
  have ok: "index_ok (step P e s)" using Cons.prems by (rule step_index_ok)
  show ?case
    using Cons.IH[OF ok] step_index[OF Cons.prems, of P e]
    by (auto simp: samples_of_def mod_simps algebra_simps)
qed




lemma initial_index_ok: "index_ok (initial_state fb bus t0)"
  by (simp add: index_ok_def initial_state_def)

lemma step_sample:
  "index_ok s \<Longrightarrow> step P (Capture_Sample now raw) s = capture_body now raw s"
  by (simp add: index_ok_def EI_CLASSIFIER_RAW_SAMPLE_COUNT_def)

text \<open>
  Claim C3. Along every interleaving of the two tasks from the start state, the fill
  index is the number of accepted samples modulo 416. The sample that makes this number a
  multiple of 416 sets the readiness flag and resets the fill index to 0 in the same step;
  every other sample leaves the flag as it is and advances the fill index by one. So the
  flag is set exactly once per 416 accepted samples, never earlier and never twice for
  one window.
\<close>

theorem ready_once_per_window:
  "buffer_index (run P evs (initial_state fb bus t0)) = int (samples_of evs mod 416) \<and>
   (416 dvd samples_of evs + 1 \<longrightarrow>
      audio_ready (step P (Capture_Sample now raw) (run P evs (initial_state fb bus t0))) \<and>
      buffer_index (step P (Capture_Sample now raw) (run P evs (initial_state fb bus t0))) = 0) \<and>
   (\<not> 416 dvd samples_of evs + 1 \<longrightarrow>
      audio_ready (step P (Capture_Sample now raw) (run P evs (initial_state fb bus t0)))
        = audio_ready (run P evs (initial_state fb bus t0)) \<and>
      buffer_index (step P (Capture_Sample now raw) (run P evs (initial_state fb bus t0)))
        = buffer_index (run P evs (initial_state fb bus t0)) + 1)"
proof -
  let ?s = "run P evs (initial_state fb bus t0)"
  let ?n = "samples_of evs"
  have ok: "index_ok ?s" by (rule run_index_ok[OF initial_index_ok])
  have "buffer_index (initial_state fb bus t0) = 0" by (simp add: initial_state_def)
  with run_index[OF initial_index_ok, of P evs fb bus t0]
  have bi: "buffer_index ?s = int (?n mod 416)" by (simp add: zmod_int)
  have "416 dvd Suc ?n \<longleftrightarrow> Suc ?n mod 416 = 0" by (simp add: dvd_eq_mod_eq_0)
  also have "\<dots> \<longleftrightarrow> ?n mod 416 = 415" by (simp add: mod_Suc)
  finally have dv: "416 dvd ?n + 1 \<longleftrightarrow> ?n mod 416 = 415" by simp
  have lt: "?n mod 416 < 416" by simp
  have st: "step P (Capture_Sample now raw) ?s = capture_body now raw ?s"
    by (rule step_sample[OF ok])
  show ?thesis
    unfolding st capture_body_index capture_body_ready dv using bi lt by auto
qed

lemma samples_of_replicate [simp]: "samples_of (replicate n (Capture_Sample t r)) = n"
  by (induction n) (simp_all add: samples_of_def)

lemma samples_of_append [simp]: "samples_of (es @ fs) = samples_of es + samples_of fs"
  by (simp add: samples_of_def)

theorem ready_once_per_window_witness:
  "416 dvd samples_of (replicate 415 (Capture_Sample 0 0)) + 1 \<and>
   audio_ready (step (scripted_platform 0 0 []) (Capture_Sample 0 0)
     (run (scripted_platform 0 0 []) (replicate 415 (Capture_Sample 0 0)) boot_state)) \<and>
   \<not> 416 dvd samples_of [] + 1 \<and>
   buffer_index (step (scripted_platform 0 0 []) (Capture_Sample 0 0)
     (run (scripted_platform 0 0 []) [] boot_state)) = 1"
proof -
  let ?P = "scripted_platform 0 0 []"
  have d: "416 dvd samples_of (replicate 415 (Capture_Sample 0 0)) + 1" by simp
  have e: "\<not> 416 dvd samples_of [] + 1" by (simp add: samples_of_def)
  from ready_once_per_window[of ?P "replicate 415 (Capture_Sample 0 0)" oled_clear_buffer "[]" 0 0 0] d
  have A: "audio_ready (step ?P (Capture_Sample 0 0)
     (run ?P (replicate 415 (Capture_Sample 0 0)) boot_state))"
    unfolding boot_state_def by blast
  from ready_once_per_window[of ?P "[]" oled_clear_buffer "[]" 0 0 0] e
  have "buffer_index (step ?P (Capture_Sample 0 0) (run ?P [] boot_state))
          = buffer_index (run ?P [] boot_state) + 1"
    unfolding boot_state_def by blast
  then have B: "buffer_index (step ?P (Capture_Sample 0 0) (run ?P [] boot_state)) = 1"
    by (simp add: boot_state_def initial_state_def del: step.simps)
  from d A e B show ?thesis by blast
qed



lemma replicate_update_same: "(replicate n x)[k := x] = replicate n x"
proof (cases "k < n")
  case True
  then have "replicate n x ! k = x" by simp
  then show ?thesis by (metis list_update_id)
next
  case False
  then show ?thesis by (simp add: list_update_beyond)
qed

lemma convert_sample_values: "convert_sample 0 = 0" "convert_sample 0x4000 = 1"
  unfolding convert_sample_def by simp_all

lemma run_silence:
  assumes "inference_buffer s = replicate 416 0" "0 \<le> buffer_index s"
    and "buffer_index s + int n \<le> 415"
  shows "run P (replicate n (Capture_Sample t 0)) s = s\<lparr>buffer_index := buffer_index s + int n\<rparr>"
  using assms
proof (induction n arbitrary: s)
  case 0
  then show ?case by simp
next
  case (Suc n)
  let ?s1 = "s\<lparr>buffer_index := buffer_index s + 1\<rparr>"
  have "step P (Capture_Sample t 0) s = ?s1"
    using Suc.prems
    by (simp add: capture_body_def Let_def EI_CLASSIFIER_RAW_SAMPLE_COUNT_def
        convert_sample_values replicate_update_same)
  moreover have "run P (replicate n (Capture_Sample t 0)) ?s1
                   = ?s1\<lparr>buffer_index := buffer_index ?s1 + int n\<rparr>"
    using Suc.prems by (intro Suc.IH) simp_all
  ultimately show ?case by (simp add: algebra_simps del: step.simps)
qed

lemma boot_window_full:
  "run P (replicate 416 (Capture_Sample 0 0)) boot_state
     = boot_state\<lparr>audio_ready := True\<rparr>"
proof -
  have r: "replicate 416 (Capture_Sample 0 0) = replicate 415 (Capture_Sample 0 0) @ [Capture_Sample 0 0]"
    using replicate_add[of 415 1 "Capture_Sample 0 0"] by simp
  have a: "run P (replicate 415 (Capture_Sample 0 0)) boot_state = boot_state\<lparr>buffer_index := 415\<rparr>"
    using run_silence[of boot_state 415 P 0]
    by (simp add: boot_state_def initial_state_def EI_CLASSIFIER_RAW_SAMPLE_COUNT_def)
  show ?thesis unfolding r run_append a
    by (simp add: capture_body_def Let_def EI_CLASSIFIER_RAW_SAMPLE_COUNT_def
        convert_sample_values replicate_update_same boot_state_def initial_state_def)
qed


lemma windows_read_samples [simp]:
  "windows_read P (replicate n (Capture_Sample t r)) s = []"
  by (induction n arbitrary: s) (simp_all del: step.simps)



theorem sample_conversion_witness:
  "0 \<le> buffer_index boot_state \<and> buffer_index boot_state < EI_CLASSIFIER_RAW_SAMPLE_COUNT \<and>
   length (inference_buffer boot_state) = nat EI_CLASSIFIER_RAW_SAMPLE_COUNT \<and>
   sint (inference_buffer (step (scripted_platform 0 0 []) (Capture_Sample 0 0x7FFFFFFF) boot_state)
           ! nat (buffer_index boot_state)) = - 1"
proof -
  have h: "0 \<le> buffer_index boot_state" "buffer_index boot_state < EI_CLASSIFIER_RAW_SAMPLE_COUNT"
    "length (inference_buffer boot_state) = nat EI_CLASSIFIER_RAW_SAMPLE_COUNT"
    by (simp_all add: boot_state_def initial_state_def EI_CLASSIFIER_RAW_SAMPLE_COUNT_def)
  from sample_conversion[OF h, of "scripted_platform 0 0 []" 0 "0x7FFFFFFF"]
  have "sint (inference_buffer (step (scripted_platform 0 0 []) (Capture_Sample 0 0x7FFFFFFF) boot_state)
           ! nat (buffer_index boot_state)) = (sint (0x7FFFFFFF :: 32 word) div 2 ^ 14 + 2 ^ 15) mod 2 ^ 16 - 2 ^ 15"
    by blast
  also have "\<dots> = - 1" by simp
  finally show ?thesis using h by blast
qed

section \<open>Properties of the display flush\<close>

lemma map_nth_window:
  "k + n \<le> length xs \<Longrightarrow> map (\<lambda>i. xs ! (k + i)) [0..<n] = take n (drop k xs)"
  by (rule nth_equalityI) simp_all

lemma oled_update_page_eq:
  assumes "length buf = OLED_BUFFER_SIZE" "page < 8"
  shows "oled_update_page drv buf page bus = bus @ page_messages buf page"
proof -
  have "128 * page + 128 \<le> length buf"
    using assms by (simp add: OLED_BUFFER_SIZE_def OLED_WIDTH_def OLED_HEIGHT_def)
  then have "map (\<lambda>i. buf ! (128 * page + i)) [0..<128] = take 128 (drop (128 * page) buf)"
    by (rule map_nth_window)
  then show ?thesis
    by (simp add: oled_update_page_def oled_write_command_def i2c_master_transmit_def
        page_messages_def OLED_WIDTH_def)
qed

lemma fold_pages:
  assumes "length buf = OLED_BUFFER_SIZE" "\<forall>p\<in>set ps. p < 8"
  shows "fold (oled_update_page drv buf) ps bus = bus @ concat (map (page_messages buf) ps)"
  using assms(2)
proof (induction ps arbitrary: bus)
  case Nil
  then show ?case by simp
next
  case (Cons p ps)
  then have "p < 8" and "\<forall>q\<in>set ps. q < 8" by simp_all
  then show ?case
    using Cons.IH[of "bus @ page_messages buf p"] oled_update_page_eq[OF assms(1), of p drv bus]
    by simp
qed

lemma oled_update_traffic:
  assumes "length buf = OLED_BUFFER_SIZE"
  shows "oled_update drv buf bus = ((), bus @ concat (map (page_messages buf) [0..<8]))"
  unfolding oled_update_def using fold_pages[OF assms, of "[0..<8]" drv bus] by simp

text \<open>
  Claim C9, as amended. For a framebuffer of 1024 bytes, \<open>oled_update\<close> puts on the bus,
  after what was there, the messages of pages 0 to 7 in this order, each page as three
  command messages (page address \<open>0xB0 + page\<close>, column address 0x00 and 0x10) followed
  by one data message with the 128 bytes of the page. It does so whatever statuses the
  driver returns: the statuses are dropped, the function returns nothing, and its effect
  is the same for any two drivers.
\<close>

theorem flush_pages:
  assumes "length buf = OLED_BUFFER_SIZE"
  shows "snd (oled_update drv buf bus) = bus @ concat (map (page_messages buf) [0..<8]) \<and>
         oled_update drv buf bus = oled_update drv' buf bus"
  by (simp add: oled_update_traffic[OF assms])

theorem flush_pages_witness:
  "length oled_clear_buffer = OLED_BUFFER_SIZE \<and>
   snd (oled_update (i2c_always ESP_FAIL) oled_clear_buffer [])
     = concat (map (page_messages oled_clear_buffer) [0..<8])"
proof -
  have len: "length oled_clear_buffer = OLED_BUFFER_SIZE" by (simp add: oled_clear_buffer_def)
  from flush_pages[OF len, of "i2c_always ESP_FAIL" "[]"] len show ?thesis by simp
qed

text \<open>
  Claim C9 as stated fails in its last part. With a driver that fails every
  transmission, \<open>oled_update\<close> returns the same (no value) and produces the same bus
  traffic as with a driver that succeeds: its caller cannot observe the failure.
\<close>

theorem flush_failure_counterexample:
  "i2c_always ESP_FAIL [] [0x00, 0xB0] \<noteq> ESP_OK \<and>
   oled_update (i2c_always ESP_FAIL) oled_clear_buffer []
     = oled_update (i2c_always ESP_OK) oled_clear_buffer []"
proof -
  have len: "length oled_clear_buffer = OLED_BUFFER_SIZE" by (simp add: oled_clear_buffer_def)
  show ?thesis
    by (simp add: oled_update_traffic[OF len] i2c_always_def ESP_FAIL_def ESP_OK_def)
qed

section \<open>Properties of the inference cycle\<close>

lemma inference_iteration_idle: "\<not> audio_ready s \<Longrightarrow> inference_iteration P T s = s"
  by (simp add: inference_iteration_def)

lemma inference_iteration_failed:
  assumes "audio_ready s"
    and "run_classifier P (map int16_to_float (inference_buffer s)) = (res, classification)"
    and "res \<noteq> EI_IMPULSE_OK"
  shows "inference_iteration P T s =
           s\<lparr>cycle_start_time := t_cycle_start T, audio_ready := False,
             perf_metrics := (perf_metrics s)\<lparr>inference_us := t_inference_end T - t_inference_start T\<rparr>,
             console := console s @ [Log_Inference_Failed res]\<rparr>"
  using assms by (simp add: inference_iteration_def Let_def)

lemma inference_iteration_ok:
  assumes "audio_ready s"
    and "run_classifier P (map int16_to_float (inference_buffer s)) = (EI_IMPULSE_OK, classification)"
    and "extract_scores classification = (normal_score, anomaly_score)"
  shows "inference_iteration P T s =
           report_summary (t_current T)
             ((completed_cycle P T normal_score anomaly_score s)
                \<lparr>console := console s @
                   [Log_Inference (float_gt anomaly_score normal_score)
                      (perf_metrics (completed_cycle P T normal_score anomaly_score s))]\<rparr>)"
  using assms by (simp add: inference_iteration_def Let_def completed_cycle_def)

lemma completed_cycle_fields [simp]:
  "console (completed_cycle P T n a s) = console s"
  "last_report_time (completed_cycle P T n a s) = last_report_time s"
  "inference_buffer (completed_cycle P T n a s) = inference_buffer s"
  "buffer_index (completed_cycle P T n a s) = buffer_index s"
  "audio_ready (completed_cycle P T n a s) = False"
  "oled_buffer (completed_cycle P T n a s)
     = render_frame (printf_f0 P) n a (t_inference_end T - t_inference_start T)"
  by (simp_all add: completed_cycle_def)

lemma completed_cycle_metrics:
  "perf_metrics (completed_cycle P T n a s) =
     (perf_metrics s)\<lparr>inference_us := t_inference_end T - t_inference_start T,
        display_update_us := t_display_end T - t_display_start T,
        total_cycle_us := t_cycle_end T - t_cycle_start T,
        inference_count := inference_count (perf_metrics s) + 1,
        fps := float_div (float_rnd P) 1000000
                 (int64_to_float (float_rnd P) (t_cycle_end T - t_cycle_start T))\<rparr>"
  by (simp add: completed_cycle_def update_cycle_metrics_def Let_def)

text \<open>
  Claim C4, as amended. If the classifier reports failure, the cycle is abandoned: the
  failure is logged, the framebuffer and the bus are untouched (no rendering, no display
  update), the summary timestamp is unchanged and the readiness flag stays cleared. Of
  the performance metrics, the capture duration, display duration, total cycle duration,
  throughput and inference counter keep their values; the inference duration is
  updated, since it is stored before the status is tested.
\<close>

theorem classifier_failure:
  assumes "audio_ready s"
    and "run_classifier P (map int16_to_float (inference_buffer s)) = (res, classification)"
    and "res \<noteq> EI_IMPULSE_OK"
  shows "console (inference_iteration P T s) = console s @ [Log_Inference_Failed res] \<and>
         oled_buffer (inference_iteration P T s) = oled_buffer s \<and>
         i2c_wire (inference_iteration P T s) = i2c_wire s \<and>
         perf_metrics (inference_iteration P T s)
           = (perf_metrics s)\<lparr>inference_us := t_inference_end T - t_inference_start T\<rparr> \<and>
         audio_capture_us (perf_metrics (inference_iteration P T s)) = audio_capture_us (perf_metrics s) \<and>
         display_update_us (perf_metrics (inference_iteration P T s)) = display_update_us (perf_metrics s) \<and>
         total_cycle_us (perf_metrics (inference_iteration P T s)) = total_cycle_us (perf_metrics s) \<and>
         fps (perf_metrics (inference_iteration P T s)) = fps (perf_metrics s) \<and>
         inference_count (perf_metrics (inference_iteration P T s)) = inference_count (perf_metrics s) \<and>
         last_report_time (inference_iteration P T s) = last_report_time s \<and>
         audio_ready (inference_iteration P T s) = False"
  unfolding inference_iteration_failed[OF assms] by simp

lemma scripted_failure:
  "inference_iteration (scripted_platform st (- 1) cls) T (boot_state\<lparr>audio_ready := True\<rparr>)
     = boot_state\<lparr>cycle_start_time := t_cycle_start T, audio_ready := False,
         perf_metrics := (perf_metrics boot_state)\<lparr>inference_us := t_inference_end T - t_inference_start T\<rparr>,
         console := console boot_state @ [Log_Inference_Failed (- 1)]\<rparr>"
proof -
  have a: "audio_ready (boot_state\<lparr>audio_ready := True\<rparr>)" by simp
  have b: "run_classifier (scripted_platform st (- 1) cls)
             (map int16_to_float (inference_buffer (boot_state\<lparr>audio_ready := True\<rparr>))) = (- 1, cls)"
    by (simp add: scripted_platform_def scripted_classifier_def)
  have c: "(- 1 :: int) \<noteq> EI_IMPULSE_OK" by (simp add: EI_IMPULSE_OK_def)
  show ?thesis unfolding inference_iteration_failed[OF a b c] by simp
qed

theorem classifier_failure_witness:
  "audio_ready (boot_state\<lparr>audio_ready := True\<rparr>) \<and>
   run_classifier (scripted_platform 0 (- 1) [])
     (map int16_to_float (inference_buffer (boot_state\<lparr>audio_ready := True\<rparr>))) = (- 1, []) \<and>
   - 1 \<noteq> EI_IMPULSE_OK \<and>
   console (inference_iteration (scripted_platform 0 (- 1) []) (cycle_at 1000 250)
              (boot_state\<lparr>audio_ready := True\<rparr>)) = [Log_Inference_Failed (- 1)] \<and>
   inference_count (perf_metrics (inference_iteration (scripted_platform 0 (- 1) []) (cycle_at 1000 250)
              (boot_state\<lparr>audio_ready := True\<rparr>))) = 0"
proof -
  have a: "audio_ready (boot_state\<lparr>audio_ready := True\<rparr>)" by simp
  have b: "run_classifier (scripted_platform 0 (- 1) [])
             (map int16_to_float (inference_buffer (boot_state\<lparr>audio_ready := True\<rparr>))) = (- 1, [])"
    by (simp add: scripted_platform_def scripted_classifier_def)
  have c: "(- 1 :: int) \<noteq> EI_IMPULSE_OK" by (simp add: EI_IMPULSE_OK_def)
  from classifier_failure[OF a b c, of "cycle_at 1000 250"] a b c
  show ?thesis by (simp add: boot_state_def initial_state_def)
qed

text \<open>
  Claim C4 as stated fails for the inference duration. A window of 416 samples is
  captured, then a cycle runs whose classifier call takes 250 microseconds and reports
  failure -1: the failure is logged and \<open>inference_us\<close> changes from 0 to 250.
\<close>

theorem classifier_failure_counterexample:
  "inference_us (perf_metrics
     (run (scripted_platform 0 (- 1) []) (replicate 416 (Capture_Sample 0 0)) boot_state)) = 0 \<and>
   inference_us (perf_metrics
     (run (scripted_platform 0 (- 1) [])
        (replicate 416 (Capture_Sample 0 0) @ [Inference_Poll (cycle_at 1000 250)]) boot_state)) = 250 \<and>
   console
     (run (scripted_platform 0 (- 1) [])
        (replicate 416 (Capture_Sample 0 0) @ [Inference_Poll (cycle_at 1000 250)]) boot_state)
     = [Log_Inference_Failed (- 1)]"
  unfolding run_append boot_window_full run.simps step.simps scripted_failure
  by (simp add: boot_state_def initial_state_def cycle_at_def)

lemma report_summary_console:
  "console (report_summary t s) =
     (if 10000000 \<le>s t - last_report_time s then console s @ [Log_Summary (perf_metrics s)]
      else console s)"
  by (simp add: report_summary_def)

lemma report_summary_last:
  "last_report_time (report_summary t s) =
     (if 10000000 \<le>s t - last_report_time s then t else last_report_time s)"
  by (simp add: report_summary_def)

lemma iteration_metrics_ok:
  assumes "audio_ready s"
    and "run_classifier P (map int16_to_float (inference_buffer s)) = (EI_IMPULSE_OK, classification)"
  shows "perf_metrics (inference_iteration P T s) =
     (perf_metrics s)\<lparr>inference_us := t_inference_end T - t_inference_start T,
        display_update_us := t_display_end T - t_display_start T,
        total_cycle_us := t_cycle_end T - t_cycle_start T,
        inference_count := inference_count (perf_metrics s) + 1,
        fps := float_div (float_rnd P) 1000000
                 (int64_to_float (float_rnd P) (t_cycle_end T - t_cycle_start T))\<rparr>"
proof -
  obtain n a where e: "extract_scores classification = (n, a)" by (cases "extract_scores classification")
  show ?thesis unfolding inference_iteration_ok[OF assms e] by (simp add: completed_cycle_metrics)
qed

lemma int64_to_float_zero_iff:
  "\<bar>sint t\<bar> \<le> 2 ^ 24 \<Longrightarrow> int64_to_float rnd t = real_of_int (sint t)"
  "int64_to_float rnd 0 = 0"
  by (simp_all add: int64_to_float_def)

text \<open>
  Claim C8, as amended. In every completed inference cycle the total cycle duration is
  the timer reading after the display update minus the reading at the cycle start, and
  the throughput is the single-precision quotient of 1,000,000 by that duration
  converted to \<open>float\<close>. There is no clamp or guard: for a duration of 0 the division by
  zero is carried out and the throughput stored is plus infinity.
\<close>

theorem throughput_unguarded:
  assumes "audio_ready s"
    and "run_classifier P (map int16_to_float (inference_buffer s)) = (EI_IMPULSE_OK, classification)"
  shows "total_cycle_us (perf_metrics (inference_iteration P T s)) = t_cycle_end T - t_cycle_start T \<and>
         (t_cycle_end T - t_cycle_start T = 0 \<longrightarrow>
            fps (perf_metrics (inference_iteration P T s)) = FPosInf) \<and>
         (t_cycle_end T - t_cycle_start T \<noteq> 0 \<and> \<bar>sint (t_cycle_end T - t_cycle_start T)\<bar> \<le> 2 ^ 24 \<longrightarrow>
            fps (perf_metrics (inference_iteration P T s))
              = FFin (float_rnd P (1000000 / real_of_int (sint (t_cycle_end T - t_cycle_start T))))) \<and>
         (int64_to_float (float_rnd P) (t_cycle_end T - t_cycle_start T) \<noteq> 0 \<longrightarrow>
            fps (perf_metrics (inference_iteration P T s))
              = FFin (float_rnd P (1000000 /
                   int64_to_float (float_rnd P) (t_cycle_end T - t_cycle_start T))))"
proof -
  let ?d = "t_cycle_end T - t_cycle_start T"
  have f: "fps (perf_metrics (inference_iteration P T s))
             = float_div (float_rnd P) 1000000 (int64_to_float (float_rnd P) ?d)"
    and t: "total_cycle_us (perf_metrics (inference_iteration P T s)) = ?d"
    unfolding iteration_metrics_ok[OF assms] by simp_all
  have nz: "?d \<noteq> 0 \<Longrightarrow> sint ?d \<noteq> 0" by (metis signed_word_eqI sint_0)
  have dv: "b \<noteq> 0 \<Longrightarrow> float_div rnd a b = FFin (rnd (a / b))" for rnd a b
    by (simp add: float_div_def)
  show ?thesis
  proof (intro conjI impI)
    show "total_cycle_us (perf_metrics (inference_iteration P T s)) = ?d" by (rule t)
  next
    assume "?d = 0"
    then show "fps (perf_metrics (inference_iteration P T s)) = FPosInf"
      unfolding f by (simp add: float_div_def int64_to_float_def)
  next
    assume a: "?d \<noteq> 0 \<and> \<bar>sint ?d\<bar> \<le> 2 ^ 24"
    then have c: "int64_to_float (float_rnd P) ?d = real_of_int (sint ?d)"
      by (simp only: int64_to_float_zero_iff(1))
    from a nz have "real_of_int (sint ?d) \<noteq> 0" by (simp only: of_int_eq_0_iff) simp
    then show "fps (perf_metrics (inference_iteration P T s))
              = FFin (float_rnd P (1000000 / real_of_int (sint ?d)))"
      unfolding f c by (rule dv)
  next
    assume "int64_to_float (float_rnd P) ?d \<noteq> 0"
    then show "fps (perf_metrics (inference_iteration P T s))
              = FFin (float_rnd P (1000000 / int64_to_float (float_rnd P) ?d))"
      unfolding f by (rule dv)
  qed
qed


lemma scripted_success_metrics:
  "perf_metrics (inference_iteration (scripted_platform st 0 cls) T (boot_state\<lparr>audio_ready := True\<rparr>))
     = (perf_metrics boot_state)\<lparr>inference_us := t_inference_end T - t_inference_start T,
        display_update_us := t_display_end T - t_display_start T,
        total_cycle_us := t_cycle_end T - t_cycle_start T,
        inference_count := inference_count (perf_metrics boot_state) + 1,
        fps := float_div exact_rounding 1000000
                 (int64_to_float exact_rounding (t_cycle_end T - t_cycle_start T))\<rparr>"
proof -
  have a: "audio_ready (boot_state\<lparr>audio_ready := True\<rparr>)" by simp
  have b: "run_classifier (scripted_platform st 0 cls)
             (map int16_to_float (inference_buffer (boot_state\<lparr>audio_ready := True\<rparr>)))
           = (EI_IMPULSE_OK, cls)"
    by (simp add: scripted_platform_def scripted_classifier_def EI_IMPULSE_OK_def)
  show ?thesis unfolding iteration_metrics_ok[OF a b] by (simp add: scripted_platform_def)
qed

theorem throughput_unguarded_witness:
  "audio_ready (boot_state\<lparr>audio_ready := True\<rparr>) \<and>
   run_classifier (scripted_platform 0 0 [])
      (map int16_to_float (inference_buffer (boot_state\<lparr>audio_ready := True\<rparr>)))
     = (EI_IMPULSE_OK, []) \<and>
   fps (perf_metrics (inference_iteration (scripted_platform 0 0 []) (cycle_at 1000 0)
          (boot_state\<lparr>audio_ready := True\<rparr>))) = FPosInf \<and>
   fps (perf_metrics (inference_iteration (scripted_platform 0 0 []) (cycle_at 1000 100000)
          (boot_state\<lparr>audio_ready := True\<rparr>))) = FFin 5 \<and>
   int64_to_float (float_rnd (scripted_platform 0 0 []))
     (t_cycle_end (cycle_at 1000 100000) - t_cycle_start (cycle_at 1000 100000)) \<noteq> 0"
proof -
  let ?P = "scripted_platform 0 0 []"
  let ?s = "boot_state\<lparr>audio_ready := True\<rparr>"
  have a: "audio_ready ?s" by simp
  have b: "run_classifier ?P (map int16_to_float (inference_buffer ?s)) = (EI_IMPULSE_OK, [])"
    by (simp add: scripted_platform_def scripted_classifier_def EI_IMPULSE_OK_def)
  have z: "t_cycle_end (cycle_at 1000 0) - t_cycle_start (cycle_at 1000 0) = 0"
    by (simp add: cycle_at_def)
  have d: "t_cycle_end (cycle_at 1000 100000) - t_cycle_start (cycle_at 1000 100000) = 200000"
    by (simp add: cycle_at_def)
  from throughput_unguarded[OF a b, of "cycle_at 1000 0"] z
  have A: "fps (perf_metrics (inference_iteration ?P (cycle_at 1000 0) ?s)) = FPosInf" by blast
  have "(200000 :: 64 word) \<noteq> 0 \<and> \<bar>sint (200000 :: 64 word)\<bar> \<le> 2 ^ 24" by simp
  with throughput_unguarded[OF a b, of "cycle_at 1000 100000"]
  have "fps (perf_metrics (inference_iteration ?P (cycle_at 1000 100000) ?s))
          = FFin (float_rnd ?P (1000000 / real_of_int (sint (200000 :: 64 word))))"
    unfolding d by blast
  then have B: "fps (perf_metrics (inference_iteration ?P (cycle_at 1000 100000) ?s)) = FFin 5"
    by (simp add: scripted_platform_def exact_rounding_def)
  have C: "int64_to_float (float_rnd ?P)
     (t_cycle_end (cycle_at 1000 100000) - t_cycle_start (cycle_at 1000 100000)) \<noteq> 0"
    unfolding d by (simp add: int64_to_float_def)
  from a b A B C show ?thesis by blast
qed

text \<open>
  Claim C8 as stated fails in its guard. A cycle all of whose timer readings are equal
  completes with a total cycle duration of 0, and the throughput it stores is the
  result of dividing by zero, plus infinity.
\<close>

theorem throughput_guard_counterexample:
  "total_cycle_us (perf_metrics
     (run (scripted_platform 0 0 [])
        (replicate 416 (Capture_Sample 0 0) @ [Inference_Poll (cycle_at 1000 0)]) boot_state)) = 0 \<and>
   fps (perf_metrics
     (run (scripted_platform 0 0 [])
        (replicate 416 (Capture_Sample 0 0) @ [Inference_Poll (cycle_at 1000 0)]) boot_state)) = FPosInf \<and>
   inference_count (perf_metrics
     (run (scripted_platform 0 0 [])
        (replicate 416 (Capture_Sample 0 0) @ [Inference_Poll (cycle_at 1000 0)]) boot_state)) = 1"
  unfolding run_append boot_window_full run.simps step.simps scripted_success_metrics
  by (simp add: boot_state_def initial_state_def cycle_at_def float_div_def int64_to_float_def)

lemma sint_diff_monotone:
  fixes c l :: "64 word"
  assumes "0 \<le> sint l" "sint l \<le> sint c"
  shows "sint (c - l) = sint c - sint l"
proof -
  have "sint c < 2 ^ 63" using sint_lt[of c] by simp
  with assms have "- (2 ^ 63) \<le> sint c - sint l" "sint c - sint l < 2 ^ 63" by simp_all
  then have "signed_take_bit 63 (sint c - sint l) = sint c - sint l"
    by (rule signed_take_bit_int_eq_self)
  then show ?thesis by (simp add: sint_word_diff)
qed

lemma summary_due_iff:
  fixes c l :: "64 word"
  assumes "0 \<le> sint l" "sint l \<le> sint c"
  shows "(10000000 \<le>s c - l) \<longleftrightarrow> 10000000 \<le> sint c - sint l"
  by (simp add: word_sle_eq sint_diff_monotone[OF assms])

lemma summary_count_append [simp]:
  "summary_count (xs @ ys) = summary_count xs + summary_count ys"
  by (simp add: summary_count_def)

lemma summary_count_simps [simp]:
  "summary_count [] = 0"
  "summary_count (Log_Summary m # con) = Suc (summary_count con)"
  "summary_count (Log_Inference b m # con) = summary_count con"
  "summary_count (Log_Inference_Failed r # con) = summary_count con"
  by (simp_all add: summary_count_def)

text \<open>
  Claim C10. The timer counts microseconds from boot and does not run backwards: the
  timestamp of the last summary is not negative and not after the current reading.
  Then an iteration of the inference loop adds a summary to the console only if at least
  10,000,000 microseconds have passed since the timestamp of the previous summary (the
  task start, for the first one); it then adds exactly one, sets the timestamp to the
  current reading, and the inference counter is the previous counter plus one for the
  cycle just completed. Without a new summary the timestamp is unchanged. The summary
  code itself leaves every performance metric, the inference counter included, as it is.
\<close>

theorem summary_period:
  assumes "0 \<le> sint (last_report_time s)" and "sint (last_report_time s) \<le> sint (t_current T)"
  shows "(summary_count (console (inference_iteration P T s)) \<noteq> summary_count (console s) \<longrightarrow>
            10000000 \<le> sint (t_current T) - sint (last_report_time s) \<and>
            summary_count (console (inference_iteration P T s)) = summary_count (console s) + 1 \<and>
            last_report_time (inference_iteration P T s) = t_current T \<and>
            inference_count (perf_metrics (inference_iteration P T s))
              = inference_count (perf_metrics s) + 1) \<and>
         (summary_count (console (inference_iteration P T s)) = summary_count (console s) \<longrightarrow>
            last_report_time (inference_iteration P T s) = last_report_time s) \<and>
         perf_metrics (report_summary t s) = perf_metrics s"
proof (cases "audio_ready s")
  case False
  then show ?thesis by (simp add: inference_iteration_idle)
next
  case True
  obtain res cls where rc: "run_classifier P (map int16_to_float (inference_buffer s)) = (res, cls)"
    by (cases "run_classifier P (map int16_to_float (inference_buffer s))")
  show ?thesis
  proof (cases "res = EI_IMPULSE_OK")
    case False
    show ?thesis unfolding inference_iteration_failed[OF True rc False] by simp
  next
    case ok: True
    obtain n a where e: "extract_scores cls = (n, a)" by (cases "extract_scores cls")
    from rc ok have rc': "run_classifier P (map int16_to_float (inference_buffer s)) = (EI_IMPULSE_OK, cls)"
      by simp
    show ?thesis
      unfolding inference_iteration_ok[OF True rc' e]
      using summary_due_iff[OF assms]
      by (simp add: report_summary_console report_summary_last completed_cycle_metrics)
  qed
qed

theorem summary_period_witness:
  "0 \<le> sint (last_report_time (boot_state\<lparr>audio_ready := True\<rparr>)) \<and>
   sint (last_report_time (boot_state\<lparr>audio_ready := True\<rparr>)) \<le> sint (t_current (cycle_at 10000000 0)) \<and>
   summary_count (console (inference_iteration (scripted_platform 0 0 []) (cycle_at 10000000 0)
      (boot_state\<lparr>audio_ready := True\<rparr>))) \<noteq> summary_count (console (boot_state\<lparr>audio_ready := True\<rparr>)) \<and>
   last_report_time (inference_iteration (scripted_platform 0 0 []) (cycle_at 10000000 0)
      (boot_state\<lparr>audio_ready := True\<rparr>)) = 10000000 \<and>
   summary_count (console (inference_iteration (scripted_platform 0 0 []) (cycle_at 9999999 0)
      (boot_state\<lparr>audio_ready := True\<rparr>))) = summary_count (console (boot_state\<lparr>audio_ready := True\<rparr>)) \<and>
   last_report_time (inference_iteration (scripted_platform 0 0 []) (cycle_at 9999999 0)
      (boot_state\<lparr>audio_ready := True\<rparr>)) = 0"
proof -
  let ?P = "scripted_platform 0 0 []"
  let ?s = "boot_state\<lparr>audio_ready := True\<rparr>"
  have l: "last_report_time ?s = 0" by (simp add: boot_state_def initial_state_def)
  have h1: "0 \<le> sint (last_report_time ?s)" by (simp add: l)
  have h2: "sint (last_report_time ?s) \<le> sint (t_current (cycle_at 10000000 0))"
    by (simp add: l cycle_at_def)
  have h3: "sint (last_report_time ?s) \<le> sint (t_current (cycle_at 9999999 0))"
    by (simp add: l cycle_at_def)
  have a: "audio_ready ?s" by simp
  have b: "run_classifier ?P (map int16_to_float (inference_buffer ?s)) = (EI_IMPULSE_OK, [])"
    by (simp add: scripted_platform_def scripted_classifier_def EI_IMPULSE_OK_def)
  have e: "extract_scores [] = (FFin 0, FFin 0)" by (simp add: extract_scores_def)
  have c1: "summary_count (console (inference_iteration ?P (cycle_at 10000000 0) ?s)) = 1"
    unfolding inference_iteration_ok[OF a b e]
    by (simp add: report_summary_console cycle_at_def l boot_state_def initial_state_def word_sle_eq)
  have c2: "summary_count (console (inference_iteration ?P (cycle_at 9999999 0) ?s)) = 0"
    unfolding inference_iteration_ok[OF a b e]
    by (simp add: report_summary_console cycle_at_def l boot_state_def initial_state_def word_sle_eq)
  have c0: "summary_count (console ?s) = 0"
    by (simp add: boot_state_def initial_state_def summary_count_def)
  from summary_period[OF h1 h2, of ?P] c1 c0
  have A: "last_report_time (inference_iteration ?P (cycle_at 10000000 0) ?s) = t_current (cycle_at 10000000 0)"
    by simp
  from summary_period[OF h1 h3, of ?P] c2 c0
  have B: "last_report_time (inference_iteration ?P (cycle_at 9999999 0) ?s) = last_report_time ?s"
    by simp
  from h1 h2 c1 c2 c0 A B l show ?thesis by (simp add: cycle_at_def)
qed

lemma float_gt_irrefl [simp]: "\<not> float_gt v v"
  by (cases v) simp_all

lemma iteration_console_ok:
  assumes "audio_ready s"
    and "run_classifier P (map int16_to_float (inference_buffer s)) = (EI_IMPULSE_OK, classification)"
    and "extract_scores classification = (normal_score, anomaly_score)"
  shows "Log_Inference (float_gt anomaly_score normal_score) (perf_metrics (inference_iteration P T s))
           \<in> set (console (inference_iteration P T s))"
  unfolding inference_iteration_ok[OF assms]
  by (simp add: report_summary_console)

section \<open>What the rendered frame shows\<close>

lemma length_draw_string [simp]: "length (oled_draw_string x y str on buf) = length buf"
  by (induction str arbitrary: x buf) simp_all

lemma pixel_at_draw_string:
  assumes "length buf = OLED_BUFFER_SIZE" "in_bounds px py"
  shows "pixel_at (oled_draw_string x y str on buf) px py =
           (if string_pixel x y str px py then on else pixel_at buf px py)"
  using assms(1)
proof (induction str arbitrary: x buf)
  case Nil
  then show ?case by simp
next
  case (Cons c str)
  have len: "length (oled_draw_char x y c on buf) = OLED_BUFFER_SIZE" using Cons.prems by simp
  have hd: "pixel_at (oled_draw_char x y c on buf) px py =
              (if 0 \<le> glyph_index c \<and> glyph_pixel (nat (glyph_index c)) x y px py then on
               else pixel_at buf px py)"
  proof (cases "0 \<le> glyph_index c")
    case True
    then show ?thesis using pixel_at_draw_char[OF Cons.prems assms(2) True] by simp
  next
    case False
    then show ?thesis by (simp add: draw_char_unsupported)
  qed
  show ?case
    unfolding oled_draw_string.simps Cons.IH[OF len] hd by auto
qed

lemma glyph_pixel_rows: "glyph_pixel g x y px py \<Longrightarrow> y \<le> py \<and> py \<le> y + 6 \<and> x \<le> px \<and> px \<le> x + 4"
  unfolding glyph_pixel_def by auto

lemma string_pixel_rows: "string_pixel x y str px py \<Longrightarrow> y \<le> py \<and> py \<le> y + 6 \<and> x \<le> px"
proof (induction str arbitrary: x)
  case Nil
  then show ?case by simp
next
  case (Cons c str)
  from Cons.prems consider (a) "glyph_pixel (nat (glyph_index c)) x y px py"
    | (b) "string_pixel (x + 6) y str px py" by auto
  then show ?case
  proof cases
    case a
    then show ?thesis using glyph_pixel_rows by blast
  next
    case b
    from Cons.IH[OF b] show ?thesis by simp
  qed
qed

lemma length_fold_keep:
  assumes "\<And>x b. length (f x b) = length b"
  shows "length (fold f xs buf) = length buf"
  by (induction xs arbitrary: buf) (simp_all add: assms)

lemma pixel_at_fold_or:
  assumes step: "\<And>x b. length b = OLED_BUFFER_SIZE \<Longrightarrow>
                   length (f x b) = OLED_BUFFER_SIZE \<and>
                   pixel_at (f x b) px py = (A x \<or> pixel_at b px py)"
    and len: "length buf = OLED_BUFFER_SIZE"
  shows "pixel_at (fold f xs buf) px py = ((\<exists>x\<in>set xs. A x) \<or> pixel_at buf px py)"
  using len
proof (induction xs arbitrary: buf)
  case Nil
  then show ?case by simp
next
  case (Cons x xs)
  from step[OF Cons.prems, of x] have l: "length (f x buf) = OLED_BUFFER_SIZE"
    and p: "pixel_at (f x buf) px py = (A x \<or> pixel_at buf px py)" by simp_all
  show ?case unfolding fold_Cons o_apply Cons.IH[OF l] p by auto
qed

lemma pixel_at_clear: "in_bounds px py \<Longrightarrow> \<not> pixel_at oled_clear_buffer px py"
  using pixel_byte_less[of px py] by (simp add: pixel_at_def oled_clear_buffer_def)

lemma pixel_at_set_pixel_on:
  assumes "length buf = OLED_BUFFER_SIZE" "in_bounds px py"
  shows "pixel_at (oled_set_pixel x y True buf) px py = ((px = x \<and> py = y) \<or> pixel_at buf px py)"
  using pixel_at_set_pixel[OF assms, of x y True] by auto

lemma pixel_at_separator:
  assumes "length buf = OLED_BUFFER_SIZE" "in_bounds px py"
  shows "pixel_at (fold (\<lambda>x b. oled_set_pixel (int x) 16 True b) [0..<nat OLED_WIDTH] buf) px py
           = (py = 16 \<or> pixel_at buf px py)"
proof -
  have "pixel_at (fold (\<lambda>x b. oled_set_pixel (int x) 16 True b) [0..<nat OLED_WIDTH] buf) px py
          = ((\<exists>x\<in>set [0..<nat OLED_WIDTH]. px = int x \<and> py = 16) \<or> pixel_at buf px py)"
    by (rule pixel_at_fold_or[OF _ assms(1)]) (simp add: pixel_at_set_pixel_on assms(2))
  moreover have "(\<exists>x\<in>set [0..<nat OLED_WIDTH]. px = int x \<and> py = 16) \<longleftrightarrow> py = 16"
  proof
    assume "py = 16"
    moreover from assms(2) have "nat px \<in> set [0..<nat OLED_WIDTH]" "px = int (nat px)"
      by (simp_all add: in_bounds_def)
    ultimately show "\<exists>x\<in>set [0..<nat OLED_WIDTH]. px = int x \<and> py = 16" by blast
  qed blast
  ultimately show ?thesis by simp
qed

lemma length_draw_warning_box [simp]: "length (draw_warning_box buf) = length buf"
  unfolding draw_warning_box_def Let_def
  by (simp add: length_fold_keep)

lemma pixel_at_warning_box:
  assumes "length buf = OLED_BUFFER_SIZE" "in_bounds px py"
  shows "pixel_at (draw_warning_box buf) px py = (box_pixel px py \<or> pixel_at buf px py)"
proof -
  let ?f = "\<lambda>x b. oled_set_pixel (int x) 38 True (oled_set_pixel (int x) 22 True b)"
  let ?g = "\<lambda>y b. oled_set_pixel (OLED_WIDTH - 11) (int y) True (oled_set_pixel 10 (int y) True b)"
  let ?b1 = "fold ?f [10..<nat (OLED_WIDTH - 10)] buf"
  have l1: "length ?b1 = OLED_BUFFER_SIZE" using assms(1) by (simp add: length_fold_keep)
  have h: "pixel_at ?b1 px py
         = ((\<exists>x\<in>set [10..<nat (OLED_WIDTH - 10)]. px = int x \<and> (py = 22 \<or> py = 38)) \<or> pixel_at buf px py)"
    by (rule pixel_at_fold_or[OF _ assms(1)]) (auto simp: pixel_at_set_pixel_on assms(2))
  have v: "pixel_at (fold ?g [22..<38] ?b1) px py
         = ((\<exists>y\<in>set [22..<38]. (px = 10 \<or> px = OLED_WIDTH - 11) \<and> py = int y) \<or> pixel_at ?b1 px py)"
    by (rule pixel_at_fold_or[OF _ l1]) (auto simp: pixel_at_set_pixel_on assms(2))
  have hx: "(\<exists>x\<in>set [10..<nat (OLED_WIDTH - 10)]. px = int x \<and> (py = 22 \<or> py = 38))
              \<longleftrightarrow> (10 \<le> px \<and> px < 118 \<and> (py = 22 \<or> py = 38))"
  proof
    assume a: "10 \<le> px \<and> px < 118 \<and> (py = 22 \<or> py = 38)"
    then have "nat px \<in> {10..<nat (OLED_WIDTH - 10)}" "px = int (nat px)"
      by (auto simp: OLED_WIDTH_def)
    then have "nat px \<in> set [10..<nat (OLED_WIDTH - 10)]" "px = int (nat px)"
      by (simp_all only: set_upt)
    with a show "\<exists>x\<in>set [10..<nat (OLED_WIDTH - 10)]. px = int x \<and> (py = 22 \<or> py = 38)" by blast
  next
    assume "\<exists>x\<in>set [10..<nat (OLED_WIDTH - 10)]. px = int x \<and> (py = 22 \<or> py = 38)"
    then obtain x where "x \<in> {10..<nat (OLED_WIDTH - 10)}" "px = int x" "py = 22 \<or> py = 38"
      unfolding set_upt by blast
    then show "10 \<le> px \<and> px < 118 \<and> (py = 22 \<or> py = 38)" by (simp add: OLED_WIDTH_def)
  qed
  have vy: "(\<exists>y\<in>set [22..<38]. (px = 10 \<or> px = OLED_WIDTH - 11) \<and> py = int y)
              \<longleftrightarrow> ((px = 10 \<or> px = 117) \<and> 22 \<le> py \<and> py < 38)"
  proof
    assume a: "(px = 10 \<or> px = 117) \<and> 22 \<le> py \<and> py < 38"
    then have "nat py \<in> {22..<38}" "py = int (nat py)" by auto
    then have "nat py \<in> set [22..<38]" "py = int (nat py)" by (simp_all only: set_upt)
    moreover from a have "px = 10 \<or> px = OLED_WIDTH - 11" by (simp add: OLED_WIDTH_def)
    ultimately show "\<exists>y\<in>set [22..<38]. (px = 10 \<or> px = OLED_WIDTH - 11) \<and> py = int y"
      by blast
  next
    assume "\<exists>y\<in>set [22..<38]. (px = 10 \<or> px = OLED_WIDTH - 11) \<and> py = int y"
    then obtain y where "y \<in> {22..<38}" "px = 10 \<or> px = OLED_WIDTH - 11" "py = int y"
      unfolding set_upt by blast
    then show "(px = 10 \<or> px = 117) \<and> 22 \<le> py \<and> py < 38" by (simp add: OLED_WIDTH_def)
  qed
  show ?thesis
    unfolding draw_warning_box_def Let_def v h hx vy box_pixel_def by auto
qed

lemma length_draw_result [simp]: "length (draw_result n a buf) = length buf"
  by (simp add: draw_result_def)

lemma pixel_at_draw_string_on:
  assumes "length buf = OLED_BUFFER_SIZE" "in_bounds px py"
  shows "pixel_at (oled_draw_string x y str True buf) px py
           = (string_pixel x y str px py \<or> pixel_at buf px py)"
  unfolding pixel_at_draw_string[OF assms] by (cases "string_pixel x y str px py") simp_all

lemma pixel_at_draw_result:
  assumes "length buf = OLED_BUFFER_SIZE" "in_bounds px py"
  shows "pixel_at (draw_result n a buf) px py = (result_pixel n a px py \<or> pixel_at buf px py)"
proof (cases "float_gt a n")
  case True
  have l: "length (oled_draw_string 15 25 ''ANOMALY!'' True buf) = OLED_BUFFER_SIZE"
    using assms(1) by (simp only: length_draw_string)
  have dr: "draw_result n a buf = draw_warning_box (oled_draw_string 15 25 ''ANOMALY!'' True buf)"
    using True by (simp only: draw_result_def if_True)
  have rp: "result_pixel n a px py = (string_pixel 15 25 ''ANOMALY!'' px py \<or> box_pixel px py)"
    using True by (simp only: result_pixel_def if_True)
  show ?thesis
    unfolding dr rp pixel_at_warning_box[OF l assms(2)] pixel_at_draw_string_on[OF assms]
    by blast
next
  case False
  have dr: "draw_result n a buf = oled_draw_string 20 25 ''NORMAL'' True buf"
    using False by (simp only: draw_result_def if_False)
  have rp: "result_pixel n a px py = string_pixel 20 25 ''NORMAL'' px py"
    using False by (simp only: result_pixel_def if_False)
  show ?thesis unfolding dr rp by (rule pixel_at_draw_string_on[OF assms])
qed

lemma length_render_frame [simp]: "length (render_frame fmt n a us) = OLED_BUFFER_SIZE"
  by (simp add: render_frame_def Let_def length_fold_keep oled_clear_buffer_def)

lemma pixel_at_render_frame:
  assumes "in_bounds px py"
  shows "pixel_at (render_frame fmt n a us) px py =
           (string_pixel 10 5 ''FAN STATUS'' px py \<or> py = 16 \<or> result_pixel n a px py \<or>
            string_pixel 20 45 (score_text fmt n a) px py \<or>
            string_pixel 5 55 (timing_text us) px py)"
proof -
  let ?b0 = "oled_clear_buffer"
  let ?b1 = "oled_draw_string 10 5 ''FAN STATUS'' True ?b0"
  let ?b2 = "fold (\<lambda>x b. oled_set_pixel (int x) 16 True b) [0..<nat OLED_WIDTH] ?b1"
  let ?b3 = "draw_result n a ?b2"
  let ?b4 = "oled_draw_string 20 45 (score_text fmt n a) True ?b3"
  have l0: "length ?b0 = OLED_BUFFER_SIZE" by (simp add: oled_clear_buffer_def)
  have l1: "length ?b1 = OLED_BUFFER_SIZE" using l0 by simp
  have l2: "length ?b2 = OLED_BUFFER_SIZE" using l1 by (simp add: length_fold_keep)
  have l3: "length ?b3 = OLED_BUFFER_SIZE" using l2 by simp
  have l4: "length ?b4 = OLED_BUFFER_SIZE" using l3 by simp
  have p1: "pixel_at ?b1 px py = string_pixel 10 5 ''FAN STATUS'' px py"
    using pixel_at_draw_string[OF l0 assms, of 10 5 "''FAN STATUS''" True] pixel_at_clear[OF assms]
    by auto
  have p2: "pixel_at ?b2 px py = (py = 16 \<or> pixel_at ?b1 px py)"
    by (rule pixel_at_separator[OF l1 assms])
  have p3: "pixel_at ?b3 px py = (result_pixel n a px py \<or> pixel_at ?b2 px py)"
    by (rule pixel_at_draw_result[OF l2 assms])
  have p4: "pixel_at ?b4 px py = (string_pixel 20 45 (score_text fmt n a) px py \<or> pixel_at ?b3 px py)"
    using pixel_at_draw_string[OF l3 assms, of 20 45 "score_text fmt n a" True] by auto
  have p5: "pixel_at (oled_draw_string 5 55 (timing_text us) True ?b4) px py
              = (string_pixel 5 55 (timing_text us) px py \<or> pixel_at ?b4 px py)"
    using pixel_at_draw_string[OF l4 assms, of 5 55 "timing_text us" True] by auto
  show ?thesis unfolding render_frame_def Let_def p5 p4 p3 p2 p1 by blast
qed

lemma string_pixel_outside: "py < y \<or> y + 6 < py \<Longrightarrow> \<not> string_pixel x y str px py"
proof
  assume a: "py < y \<or> y + 6 < py" and sp: "string_pixel x y str px py"
  from string_pixel_rows[OF sp] a show False by linarith
qed

lemma result_band_render_frame:
  assumes "in_bounds px py" "17 \<le> py" "py \<le> 44"
  shows "pixel_at (render_frame fmt n a us) px py = result_pixel n a px py"
proof -
  have "\<not> string_pixel 10 5 ''FAN STATUS'' px py"
    by (rule string_pixel_outside) (use assms in linarith)
  moreover have "\<not> string_pixel 20 45 (score_text fmt n a) px py"
    by (rule string_pixel_outside) (use assms in linarith)
  moreover have "\<not> string_pixel 5 55 (timing_text us) px py"
    by (rule string_pixel_outside) (use assms in linarith)
  ultimately show ?thesis using assms(2) unfolding pixel_at_render_frame[OF assms(1)] by auto
qed

lemma glyph_pixel_at:
  "i < 5 \<Longrightarrow> j < 7 \<Longrightarrow> bit (font5x7 ! g ! i) j \<Longrightarrow> glyph_pixel g x y (x + int i) (y + int j)"
  unfolding glyph_pixel_def by blast

lemma string_pixel_left: "px < x \<Longrightarrow> \<not> string_pixel x y str px py"
  using string_pixel_rows[of x y str px py] by auto


lemma iteration_frame_ok:
  assumes "audio_ready s"
    and "run_classifier P (map int16_to_float (inference_buffer s)) = (EI_IMPULSE_OK, classification)"
    and "extract_scores classification = (normal_score, anomaly_score)"
  shows "oled_buffer (inference_iteration P T s)
           = render_frame (printf_f0 P) normal_score anomaly_score
               (t_inference_end T - t_inference_start T)"
    and "i2c_wire (inference_iteration P T s)
           = i2c_wire s @ concat (map (page_messages (oled_buffer (inference_iteration P T s))) [0..<8])"
proof -
  show f: "oled_buffer (inference_iteration P T s)
           = render_frame (printf_f0 P) normal_score anomaly_score
               (t_inference_end T - t_inference_start T)"
    unfolding inference_iteration_ok[OF assms] by simp
  show "i2c_wire (inference_iteration P T s)
           = i2c_wire s @ concat (map (page_messages (oled_buffer (inference_iteration P T s))) [0..<8])"
    unfolding f unfolding inference_iteration_ok[OF assms]
    by (simp add: completed_cycle_def oled_update_traffic)
qed

text \<open>
  Claim C2. In a cycle whose classification succeeds with scores (normal, abnormal)
  extracted from the result, the decision is anomaly exactly when the abnormal score is
  greater than the normal score: the cycle is logged with that decision, and the frame
  that the cycle leaves in the framebuffer and sends to the display shows it. Every pixel
  of that frame is set exactly if it belongs to the title, the separator row 16, the
  result section, the score text or the timing text; in rows 17 to 44, where only the
  result section draws, the pixels set are those of the text ANOMALY! at (15, 25) and of
  its warning box if the abnormal score is greater than the normal score, and those of
  the text NORMAL at (20, 25) otherwise, in particular when the scores are equal. For
  finite scores, greater is the order of the real numbers.
\<close>

theorem decision_rule:
  assumes "audio_ready s"
    and "run_classifier P (map int16_to_float (inference_buffer s)) = (EI_IMPULSE_OK, classification)"
    and "extract_scores classification = (normal_score, anomaly_score)"
  shows "oled_buffer (inference_iteration P T s)
           = render_frame (printf_f0 P) normal_score anomaly_score
               (t_inference_end T - t_inference_start T) \<and>
         Log_Inference (float_gt anomaly_score normal_score) (perf_metrics (inference_iteration P T s))
           \<in> set (console (inference_iteration P T s)) \<and>
         (float_gt anomaly_score normal_score \<longrightarrow>
            draw_result normal_score anomaly_score buf
              = draw_warning_box (oled_draw_string 15 25 ''ANOMALY!'' True buf)) \<and>
         (\<not> float_gt anomaly_score normal_score \<longrightarrow>
            draw_result normal_score anomaly_score buf = oled_draw_string 20 25 ''NORMAL'' True buf) \<and>
         (anomaly_score = normal_score \<longrightarrow>
            draw_result normal_score anomaly_score buf = oled_draw_string 20 25 ''NORMAL'' True buf) \<and>
         (\<forall>p q. normal_score = FFin p \<and> anomaly_score = FFin q \<longrightarrow>
            (float_gt anomaly_score normal_score \<longleftrightarrow> p < q)) \<and>
         i2c_wire (inference_iteration P T s)
           = i2c_wire s @ concat (map (page_messages (oled_buffer (inference_iteration P T s))) [0..<8]) \<and>
         (\<forall>px py. in_bounds px py \<longrightarrow>
            pixel_at (oled_buffer (inference_iteration P T s)) px py =
              (string_pixel 10 5 ''FAN STATUS'' px py \<or> py = 16 \<or>
               result_pixel normal_score anomaly_score px py \<or>
               string_pixel 20 45 (score_text (printf_f0 P) normal_score anomaly_score) px py \<or>
               string_pixel 5 55 (timing_text (t_inference_end T - t_inference_start T)) px py)) \<and>
         (\<forall>px py. in_bounds px py \<and> 17 \<le> py \<and> py \<le> 44 \<longrightarrow>
            pixel_at (oled_buffer (inference_iteration P T s)) px py =
              (if float_gt anomaly_score normal_score
               then string_pixel 15 25 ''ANOMALY!'' px py \<or> box_pixel px py
               else string_pixel 20 25 ''NORMAL'' px py)) \<and>
         (anomaly_score = normal_score \<longrightarrow>
            (\<forall>px py. in_bounds px py \<and> 17 \<le> py \<and> py \<le> 44 \<longrightarrow>
               pixel_at (oled_buffer (inference_iteration P T s)) px py =
                 string_pixel 20 25 ''NORMAL'' px py))"
proof -
  note fr = iteration_frame_ok[OF assms, of T]
  have band: "pixel_at (oled_buffer (inference_iteration P T s)) px py =
              (if float_gt anomaly_score normal_score
               then string_pixel 15 25 ''ANOMALY!'' px py \<or> box_pixel px py
               else string_pixel 20 25 ''NORMAL'' px py)"
    if "in_bounds px py \<and> 17 \<le> py \<and> py \<le> 44" for px py
    using that unfolding fr(1) by (simp add: result_band_render_frame result_pixel_def)
  have tie: "pixel_at (oled_buffer (inference_iteration P T s)) px py = string_pixel 20 25 ''NORMAL'' px py"
    if "anomaly_score = normal_score" "in_bounds px py \<and> 17 \<le> py \<and> py \<le> 44" for px py
    using band[OF that(2)] that(1) by simp
  have full: "pixel_at (oled_buffer (inference_iteration P T s)) px py =
              (string_pixel 10 5 ''FAN STATUS'' px py \<or> py = 16 \<or>
               result_pixel normal_score anomaly_score px py \<or>
               string_pixel 20 45 (score_text (printf_f0 P) normal_score anomaly_score) px py \<or>
               string_pixel 5 55 (timing_text (t_inference_end T - t_inference_start T)) px py)"
    if "in_bounds px py" for px py
    unfolding fr(1) by (rule pixel_at_render_frame[OF that])
  have lg: "Log_Inference (float_gt anomaly_score normal_score) (perf_metrics (inference_iteration P T s))
           \<in> set (console (inference_iteration P T s))"
    by (rule iteration_console_ok[OF assms])
  have dr: "(float_gt anomaly_score normal_score \<longrightarrow>
            draw_result normal_score anomaly_score buf
              = draw_warning_box (oled_draw_string 15 25 ''ANOMALY!'' True buf)) \<and>
         (\<not> float_gt anomaly_score normal_score \<longrightarrow>
            draw_result normal_score anomaly_score buf = oled_draw_string 20 25 ''NORMAL'' True buf) \<and>
         (anomaly_score = normal_score \<longrightarrow>
            draw_result normal_score anomaly_score buf = oled_draw_string 20 25 ''NORMAL'' True buf) \<and>
         (\<forall>p q. normal_score = FFin p \<and> anomaly_score = FFin q \<longrightarrow>
            (float_gt anomaly_score normal_score \<longleftrightarrow> p < q))"
    by (auto simp: draw_result_def)
  from fr lg dr band tie full show ?thesis by blast
qed

theorem decision_rule_witness:
  "audio_ready (boot_state\<lparr>audio_ready := True\<rparr>) \<and>
   run_classifier (scripted_platform 0 0 [(''normal'', FFin 0.3), (''abnormal'', FFin 0.7)])
      (map int16_to_float (inference_buffer (boot_state\<lparr>audio_ready := True\<rparr>)))
     = (EI_IMPULSE_OK, [(''normal'', FFin 0.3), (''abnormal'', FFin 0.7)]) \<and>
   extract_scores [(''normal'', FFin 0.3), (''abnormal'', FFin 0.7)] = (FFin 0.3, FFin 0.7) \<and>
   float_gt (FFin 0.7) (FFin 0.3) \<and>
   in_bounds 15 26 \<and> in_bounds 10 22 \<and> in_bounds 20 25 \<and>
   pixel_at (oled_buffer (inference_iteration
      (scripted_platform 0 0 [(''normal'', FFin 0.3), (''abnormal'', FFin 0.7)]) (cycle_at 0 0)
      (boot_state\<lparr>audio_ready := True\<rparr>))) 15 26 \<and>
   pixel_at (oled_buffer (inference_iteration
      (scripted_platform 0 0 [(''normal'', FFin 0.3), (''abnormal'', FFin 0.7)]) (cycle_at 0 0)
      (boot_state\<lparr>audio_ready := True\<rparr>))) 10 22 \<and>
   draw_result (FFin 0.3) (FFin 0.7) oled_clear_buffer
     = draw_warning_box (oled_draw_string 15 25 ''ANOMALY!'' True oled_clear_buffer) \<and>
   run_classifier (scripted_platform 0 0 [(''Normal'', FFin 0.5), (''Abnormal'', FFin 0.5)])
      (map int16_to_float (inference_buffer (boot_state\<lparr>audio_ready := True\<rparr>)))
     = (EI_IMPULSE_OK, [(''Normal'', FFin 0.5), (''Abnormal'', FFin 0.5)]) \<and>
   extract_scores [(''Normal'', FFin 0.5), (''Abnormal'', FFin 0.5)] = (FFin 0.5, FFin 0.5) \<and>
   pixel_at (oled_buffer (inference_iteration
      (scripted_platform 0 0 [(''Normal'', FFin 0.5), (''Abnormal'', FFin 0.5)]) (cycle_at 0 0)
      (boot_state\<lparr>audio_ready := True\<rparr>))) 20 25 \<and>
   \<not> pixel_at (oled_buffer (inference_iteration
      (scripted_platform 0 0 [(''Normal'', FFin 0.5), (''Abnormal'', FFin 0.5)]) (cycle_at 0 0)
      (boot_state\<lparr>audio_ready := True\<rparr>))) 15 26 \<and>
   \<not> pixel_at (oled_buffer (inference_iteration
      (scripted_platform 0 0 [(''Normal'', FFin 0.5), (''Abnormal'', FFin 0.5)]) (cycle_at 0 0)
      (boot_state\<lparr>audio_ready := True\<rparr>))) 10 22 \<and>
   draw_result (FFin 0.5) (FFin 0.5) oled_clear_buffer
     = oled_draw_string 20 25 ''NORMAL'' True oled_clear_buffer"
proof -
  let ?s = "boot_state\<lparr>audio_ready := True\<rparr>"
  let ?c1 = "[(''normal'', FFin 0.3), (''abnormal'', FFin 0.7)]"
  let ?c2 = "[(''Normal'', FFin 0.5), (''Abnormal'', FFin 0.5)]"
  have a: "audio_ready ?s" by simp
  have b1: "run_classifier (scripted_platform 0 0 ?c1) (map int16_to_float (inference_buffer ?s))
              = (EI_IMPULSE_OK, ?c1)"
    by (simp add: scripted_platform_def scripted_classifier_def EI_IMPULSE_OK_def)
  have b2: "run_classifier (scripted_platform 0 0 ?c2) (map int16_to_float (inference_buffer ?s))
              = (EI_IMPULSE_OK, ?c2)"
    by (simp add: scripted_platform_def scripted_classifier_def EI_IMPULSE_OK_def)
  have e1: "extract_scores ?c1 = (FFin 0.3, FFin 0.7)"
    by (simp add: extract_scores_def is_normal_label_def is_abnormal_label_def)
  have e2: "extract_scores ?c2 = (FFin 0.5, FFin 0.5)"
    by (simp add: extract_scores_def is_normal_label_def is_abnormal_label_def)
  have g: "float_gt (FFin 0.7) (FFin 0.3)" by simp
  have ib: "in_bounds 15 26" "in_bounds 10 22" "in_bounds 20 25"
    by (simp_all add: in_bounds_def OLED_WIDTH_def OLED_HEIGHT_def)
  have band: "(17::int) \<le> 26 \<and> (26::int) \<le> 44" "(17::int) \<le> 22 \<and> (22::int) \<le> 44"
    "(17::int) \<le> 25 \<and> (25::int) \<le> 44" by simp_all
  have "bit (font5x7 ! 0 ! 0) (1::nat)" by (simp add: font5x7_def)
  from glyph_pixel_at[OF _ _ this, of 15 25]
  have gA: "glyph_pixel 0 15 25 15 26" by simp
  have "bit (font5x7 ! 13 ! 0) (0::nat)" by (simp add: font5x7_def)
  from glyph_pixel_at[OF _ _ this, of 20 25]
  have gN: "glyph_pixel 13 20 25 20 25" by simp
  have iA: "glyph_index CHR ''A'' = 0" and iN: "glyph_index CHR ''N'' = 13"
    by (simp_all add: glyph_index_def)
  have spA: "string_pixel 15 25 ''ANOMALY!'' 15 26" using gA iA by simp
  have spN: "string_pixel 20 25 ''NORMAL'' 20 25" using gN iN by simp
  have nN1: "\<not> string_pixel 20 25 ''NORMAL'' 15 26" by (rule string_pixel_left) simp
  have nN2: "\<not> string_pixel 20 25 ''NORMAL'' 10 22" by (rule string_pixel_left) simp
  have bx: "box_pixel 10 22" by (simp add: box_pixel_def)
  note d1 = decision_rule[OF a b1 e1, of "cycle_at 0 0" oled_clear_buffer]
  note d2 = decision_rule[OF a b2 e2, of "cycle_at 0 0" oled_clear_buffer]
  let ?f1 = "oled_buffer (inference_iteration (scripted_platform 0 0 ?c1) (cycle_at 0 0) ?s)"
  let ?f2 = "oled_buffer (inference_iteration (scripted_platform 0 0 ?c2) (cycle_at 0 0) ?s)"
  from d1 have bd1: "\<forall>px py. in_bounds px py \<and> 17 \<le> py \<and> py \<le> 44 \<longrightarrow>
      pixel_at ?f1 px py =
        (if float_gt (FFin 0.7) (FFin 0.3)
         then string_pixel 15 25 ''ANOMALY!'' px py \<or> box_pixel px py
         else string_pixel 20 25 ''NORMAL'' px py)"
    by (elim conjE)
  from d2 have bd2: "FFin 0.5 = FFin 0.5 \<longrightarrow>
      (\<forall>px py. in_bounds px py \<and> 17 \<le> py \<and> py \<le> 44 \<longrightarrow>
         pixel_at ?f2 px py = string_pixel 20 25 ''NORMAL'' px py)"
    by (elim conjE)
  from bd1 ib(1) band(1) have "pixel_at ?f1 15 26 =
        (if float_gt (FFin 0.7) (FFin 0.3)
         then string_pixel 15 25 ''ANOMALY!'' 15 26 \<or> box_pixel 15 26
         else string_pixel 20 25 ''NORMAL'' 15 26)" by blast
  with g spA have A1: "pixel_at ?f1 15 26" by (simp only: if_True simp_thms)
  from bd1 ib(2) band(2) have "pixel_at ?f1 10 22 =
        (if float_gt (FFin 0.7) (FFin 0.3)
         then string_pixel 15 25 ''ANOMALY!'' 10 22 \<or> box_pixel 10 22
         else string_pixel 20 25 ''NORMAL'' 10 22)" by blast
  with g bx have A2: "pixel_at ?f1 10 22" by (simp only: if_True simp_thms)
  from d1 have "float_gt (FFin 0.7) (FFin 0.3) \<longrightarrow>
            draw_result (FFin 0.3) (FFin 0.7) oled_clear_buffer
              = draw_warning_box (oled_draw_string 15 25 ''ANOMALY!'' True oled_clear_buffer)"
    by (elim conjE)
  with g have A3: "draw_result (FFin 0.3) (FFin 0.7) oled_clear_buffer
            = draw_warning_box (oled_draw_string 15 25 ''ANOMALY!'' True oled_clear_buffer)"
    by (rule rev_mp)
  from bd2 ib(3) band(3) have "pixel_at ?f2 20 25 = string_pixel 20 25 ''NORMAL'' 20 25" by blast
  with spN have B1: "pixel_at ?f2 20 25" by (simp only: simp_thms)
  from bd2 ib(1) band(1) have "pixel_at ?f2 15 26 = string_pixel 20 25 ''NORMAL'' 15 26" by blast
  with nN1 have B2: "\<not> pixel_at ?f2 15 26" by (simp only: simp_thms)
  from bd2 ib(2) band(2) have "pixel_at ?f2 10 22 = string_pixel 20 25 ''NORMAL'' 10 22" by blast
  with nN2 have B3: "\<not> pixel_at ?f2 10 22" by (simp only: simp_thms)
  from d2 have "FFin 0.5 = FFin 0.5 \<longrightarrow>
            draw_result (FFin 0.5) (FFin 0.5) oled_clear_buffer
              = oled_draw_string 20 25 ''NORMAL'' True oled_clear_buffer"
    by (elim conjE)
  then have B4: "draw_result (FFin 0.5) (FFin 0.5) oled_clear_buffer
            = oled_draw_string 20 25 ''NORMAL'' True oled_clear_buffer"
    by (simp only: simp_thms)
  from a b1 e1 g ib A1 A2 A3 b2 e2 B1 B2 B3 B4 show ?thesis by blast
qed

end
